theory Spec2Isabelle
  imports Main
begin

section \<open>Strings and character classes\<close>

text \<open>
  A Python \<open>str\<close> is modelled as a HOL \<open>string\<close>; a \<open>char\<close> is read as the code
  point of the same number, so the model covers the strings whose code points lie below
  256. On that range the tables below are those of the interpreter: \<open>str.isspace\<close>
  (which both \<open>str.strip()\<close> and the pattern \<open>\\s\<close> use), the word characters of
  \<open>\\w\<close> and \<open>\\b\<close> (alphanumerics and the underscore), the decimal digits of \<open>\\d\<close>
  and \<open>str.lower()\<close>.
\<close>

definition isspace :: "char \<Rightarrow> bool" where
  "isspace c =
     (let n = (of_char c :: nat)
      in (9 \<le> n \<and> n \<le> 13) \<or> (28 \<le> n \<and> n \<le> 32) \<or> n = 133 \<or> n = 160)"

definition isdigit :: "char \<Rightarrow> bool" where
  "isdigit c = (let n = (of_char c :: nat) in 48 \<le> n \<and> n \<le> 57)"

definition isword :: "char \<Rightarrow> bool" where
  "isword c =
     (let n = (of_char c :: nat)
      in (48 \<le> n \<and> n \<le> 57) \<or> (65 \<le> n \<and> n \<le> 90) \<or> n = 95 \<or> (97 \<le> n \<and> n \<le> 122)
         \<or> n = 170 \<or> n = 178 \<or> n = 179 \<or> n = 181 \<or> n = 185 \<or> n = 186
         \<or> (188 \<le> n \<and> n \<le> 190) \<or> (192 \<le> n \<and> n \<le> 214)
         \<or> (216 \<le> n \<and> n \<le> 246) \<or> 248 \<le> n)"

definition lower_char :: "char \<Rightarrow> char" where
  "lower_char c =
     (let n = (of_char c :: nat)
      in if (65 \<le> n \<and> n \<le> 90) \<or> (192 \<le> n \<and> n \<le> 222 \<and> n \<noteq> 215)
         then char_of (n + 32) else c)"

definition lower :: "string \<Rightarrow> string" where
  "lower s = map lower_char s"

definition strip :: "string \<Rightarrow> string" where
  "strip s = rev (dropWhile isspace (rev (dropWhile isspace s)))"

text \<open>\<open>p in s\<close> on strings: \<open>p\<close> occurs in \<open>s\<close> as a contiguous substring.\<close>

definition startswith :: "string \<Rightarrow> string \<Rightarrow> bool" where
  "startswith p s = (take (length p) s = p)"

primrec str_in :: "string \<Rightarrow> string \<Rightarrow> bool" where
  "str_in p [] = (p = [])"
| "str_in p (c # cs) = (startswith p (c # cs) \<or> str_in p cs)"

text \<open>\<open>s.split(";")\<close>: the segments between the separators, always at least one.\<close>

primrec split_on :: "char \<Rightarrow> string \<Rightarrow> string list" where
  "split_on d [] = [[]]"
| "split_on d (c # cs) =
     (if c = d then [] # split_on d cs
      else (case split_on d cs of [] \<Rightarrow> [[c]] | p # ps \<Rightarrow> (c # p) # ps))"

text \<open>
  \<open>int(ds)\<close> on a string of decimal digits and \<open>str(n)\<close> on an integer. Both raise
  \<open>ValueError\<close> in CPython when more digits are read or written than the limit for
  integer string conversion, 4300 unless the interpreter is configured otherwise; leading
  zeros count, the sign does not. \<open>None\<close> is that exception.
\<close>

definition int_max_str_digits :: nat where
  "int_max_str_digits = 4300"

definition digit_val :: "char \<Rightarrow> nat" where
  "digit_val c = of_char c - 48"

definition digits_value :: "string \<Rightarrow> nat" where
  "digits_value ds = foldl (\<lambda>n c. 10 * n + digit_val c) 0 ds"

definition int_of_digits :: "string \<Rightarrow> nat option" where
  "int_of_digits ds =
     (if int_max_str_digits < length ds then None else Some (digits_value ds))"

definition digit_char :: "nat \<Rightarrow> char" where
  "digit_char d = ''0123456789'' ! d"

fun str_nat :: "nat \<Rightarrow> string" where
  "str_nat n = (if n < 10 then [digit_char n] else str_nat (n div 10) @ [digit_char (n mod 10)])"

declare str_nat.simps [simp del]

definition str_int :: "int \<Rightarrow> string" where
  "str_int i = (if i < 0 then CHR ''-'' # str_nat (nat (- i)) else str_nat (nat i))"

definition py_str :: "int \<Rightarrow> string option" where
  "py_str i =
     (if int_max_str_digits < length (str_nat (nat \<bar>i\<bar>)) then None else Some (str_int i))"

section \<open>The regular expressions of the validator\<close>

text \<open>
  The patterns of \<open>validate_sql\<close> are built from literal words, \<open>\\b\<close>, \<open>\\s+\<close> and
  \<open>\\d+\<close>. A matcher takes the character before the position (\<open>None\<close> at the start of
  the string) and the rest of the string from the position on.

  \<open>\\b\<close> holds where exactly one of the two neighbouring characters is a word character;
  the start and the end of the string count as non-word.
\<close>

fun is_word_opt :: "char option \<Rightarrow> bool" where
  "is_word_opt None = False"
| "is_word_opt (Some c) = isword c"

fun head_opt :: "string \<Rightarrow> char option" where
  "head_opt [] = None"
| "head_opt (c # cs) = Some c"

definition at_boundary :: "char option \<Rightarrow> string \<Rightarrow> bool" where
  "at_boundary prev rest = (is_word_opt prev \<noteq> is_word_opt (head_opt rest))"

text \<open>
  A literal (lower-case) word at the head of \<open>rest\<close>, with or without \<open>re.IGNORECASE\<close>.
  Among the code points below 256 a lower-case ASCII letter of a pattern matches itself
  and its upper-case form only, which is what comparing after \<open>lower_char\<close> gives.
\<close>

definition lit :: "bool \<Rightarrow> string \<Rightarrow> string \<Rightarrow> bool" where
  "lit ic p rest =
     ((if ic then lower (take (length p) rest) else take (length p) rest) = p)"

text \<open>
  \<open>(k1|k2|...)\\b\<close> at the head of \<open>rest\<close>: the alternatives are tried in order and the
  engine backtracks into the next one when \<open>\\b\<close> fails, so the group matches when some
  alternative is at the head and is followed by a boundary.
\<close>

definition alt_word :: "bool \<Rightarrow> string list \<Rightarrow> string \<Rightarrow> bool" where
  "alt_word ic kws rest =
     list_ex (\<lambda>kw. lit ic kw rest
                  \<and> at_boundary (Some (last (take (length kw) rest))) (drop (length kw) rest)) kws"

text \<open>\<open>\\b(k1|k2|...)\\b\<close> at one position.\<close>

definition word_at :: "bool \<Rightarrow> string list \<Rightarrow> char option \<Rightarrow> string \<Rightarrow> bool" where
  "word_at ic kws prev rest = (at_boundary prev rest \<and> alt_word ic kws rest)"

text \<open>\<open>re.search\<close> of a yes/no matcher: some position of the string matches.\<close>

primrec search :: "(char option \<Rightarrow> string \<Rightarrow> bool) \<Rightarrow> char option \<Rightarrow> string \<Rightarrow> bool" where
  "search m prev [] = m prev []"
| "search m prev (c # cs) = (m prev (c # cs) \<or> search m (Some c) cs)"

text \<open>\<open>re.match(r"^(select|with)\\b", s, re.IGNORECASE)\<close>\<close>

definition read_query_match :: "string \<Rightarrow> bool" where
  "read_query_match s = alt_word True [''select'', ''with''] s"

text \<open>\<open>BANNED.search(s)\<close>\<close>

definition BANNED_words :: "string list" where
  "BANNED_words = [''insert'', ''update'', ''delete'', ''drop'', ''alter'', ''create'',
                   ''truncate'', ''grant'', ''revoke'', ''vacuum'', ''copy'']"

definition BANNED_search :: "string \<Rightarrow> bool" where
  "BANNED_search s = search (word_at True BANNED_words) None s"

text \<open>\<open>re.search(r"\\blimit\\b", lowered)\<close>\<close>

definition limit_word_search :: "string \<Rightarrow> bool" where
  "limit_word_search s = search (word_at False [''limit'']) None s"

text \<open>
  \<open>\\blimit\\s+(\\d+)\\b\<close> at one position. \<open>\\s+\<close> and \<open>\\d+\<close> are greedy; giving back
  a white-space character leaves a white-space character where a digit is needed, and
  giving back a digit leaves a digit (a word character) after a digit where \<open>\\b\<close> is
  needed, so the only match at a position takes all the white space and all the digits.
  The result is the length of the match and the digits of group 1.
\<close>

definition limit_clause :: "bool \<Rightarrow> char option \<Rightarrow> string \<Rightarrow> (nat \<times> string) option" where
  "limit_clause ic prev rest =
     (if at_boundary prev rest \<and> lit ic ''limit'' rest then
        let r1 = drop 5 rest;
            ws = takeWhile isspace r1; r2 = dropWhile isspace r1;
            ds = takeWhile isdigit r2; r3 = dropWhile isdigit r2
        in if ws \<noteq> [] \<and> ds \<noteq> [] \<and> at_boundary (Some (last ds)) r3
           then Some (5 + length ws + length ds, ds) else None
      else None)"

text \<open>
  \<open>re.search(r"\\blimit\\s+(\\d+)\\b", lowered)\<close>: the leftmost match, as the offset
  where it starts, its length and its group 1.
\<close>

primrec limit_search :: "char option \<Rightarrow> string \<Rightarrow> (nat \<times> nat \<times> string) option" where
  "limit_search prev [] = map_option (\<lambda>m. (0, m)) (limit_clause False prev [])"
| "limit_search prev (c # cs) =
     (case limit_clause False prev (c # cs) of
        Some m \<Rightarrow> Some (0, m)
      | None \<Rightarrow> map_option (\<lambda>(i, m). (Suc i, m)) (limit_search (Some c) cs))"

text \<open>
  \<open>re.sub(r"(?i)\\blimit\\s+\\d+\\b", repl, s)\<close>: no \<open>count\<close> is given, so every
  non-overlapping match is replaced, scanning from the left; after a match the scan goes
  on behind it.
\<close>

function re_sub_limit :: "string \<Rightarrow> char option \<Rightarrow> string \<Rightarrow> string" where
  "re_sub_limit repl prev [] = []"
| "re_sub_limit repl prev (c # cs) =
     (case limit_clause True prev (c # cs) of
        Some m \<Rightarrow> repl @ re_sub_limit repl (Some ((c # cs) ! (fst m - 1))) (drop (fst m) (c # cs))
      | None \<Rightarrow> c # re_sub_limit repl (Some c) cs)"
  by pat_completeness auto
termination
  by (relation "measure (\<lambda>(repl, prev, s). length s)")
     (auto simp: limit_clause_def Let_def split: if_splits)

section \<open>The SQL safety validator\<close>

text \<open>
  The six \<open>HTTPException(400, ...)\<close> of \<open>validate_sql\<close>, in the order of the source,
  under the names the specification gives them, and the \<open>ValueError\<close> that \<open>int\<close> and
  the formatting of \<open>MAX_ROWS\<close> raise beyond the digit limit; \<open>validate_sql\<close> does not
  catch it.
\<close>

datatype validation_error =
    EmptyOutput | NotAReadQuery | ForbiddenKeyword
  | MultipleStatements | SchemaNotAllowed | LimitRequired
  | ValueError

definition single_statement :: "string \<Rightarrow> bool" where
  "single_statement sql =
     (let parts = map strip (filter (\<lambda>p. strip p \<noteq> []) (split_on CHR '';'' (strip sql)))
      in length parts = 1)"

definition from_clause :: "string \<Rightarrow> bool" where
  "from_clause lowered =
     (str_in '' from '' lowered \<or> str_in (CHR 0x0A # ''from '') lowered
      \<or> str_in (CHR 0x09 # ''from '') lowered)"

definition validate_sql :: "int \<Rightarrow> string \<Rightarrow> validation_error + string" where
  "validate_sql MAX_ROWS sql =
     (if sql = [] then Inl EmptyOutput
      else let s = strip sql in
        if \<not> read_query_match s then Inl NotAReadQuery
        else if BANNED_search s then Inl ForbiddenKeyword
        else if \<not> single_statement s then Inl MultipleStatements
        else let lowered = lower s in
          if from_clause lowered \<and> \<not> str_in ''mart.'' lowered then Inl SchemaNotAllowed
          else if \<not> limit_word_search lowered then Inl LimitRequired
          else (case limit_search None lowered of
                  Some (i, n, ds) \<Rightarrow>
                    (case int_of_digits ds of
                       None \<Rightarrow> Inl ValueError
                     | Some lim \<Rightarrow>
                         if int lim > MAX_ROWS
                         then (case py_str MAX_ROWS of
                                 None \<Rightarrow> Inl ValueError
                               | Some txt \<Rightarrow> Inr (re_sub_limit (''LIMIT '' @ txt) None s))
                         else Inr s)
                | None \<Rightarrow> Inr s))"


section \<open>Value coercion\<close>

text \<open>
  The values \<open>to_jsonable\<close> tells apart with \<open>isinstance\<close>: a \<open>Decimal\<close>, a \<open>date\<close> or
  \<open>datetime\<close>, a \<open>dict\<close> (its items in order; the keys are values too), a \<open>list\<close>, a
  \<open>tuple\<close>, and everything else. A \<open>float\<close> and a \<open>str\<close> have constructors of their own
  because the function produces them; \<open>Other\<close> stands for any remaining object
  (\<open>None\<close>, a bool, an int, ...). The conversions \<open>float(x)\<close> and \<open>x.isoformat()\<close> belong
  to the standard library and are parameters.
\<close>

datatype ('dec, 'flt, 'dt, 'o) pyval =
    Decimal 'dec
  | Float 'flt
  | Date 'dt
  | Str string
  | Dict "(('dec, 'flt, 'dt, 'o) pyval \<times> ('dec, 'flt, 'dt, 'o) pyval) list"
  | List "('dec, 'flt, 'dt, 'o) pyval list"
  | Tuple "('dec, 'flt, 'dt, 'o) pyval list"
  | Other 'o

primrec to_jsonable ::
  "('dec \<Rightarrow> 'flt) \<Rightarrow> ('dt \<Rightarrow> string) \<Rightarrow> ('dec, 'flt, 'dt, 'o) pyval \<Rightarrow> ('dec, 'flt, 'dt, 'o) pyval"
where
  "to_jsonable float_of isoformat (Decimal x) = Float (float_of x)"
| "to_jsonable float_of isoformat (Date x) = Str (isoformat x)"
| "to_jsonable float_of isoformat (Dict kvs) =
     Dict (map (map_prod id (to_jsonable float_of isoformat)) kvs)"
| "to_jsonable float_of isoformat (List xs) = List (map (to_jsonable float_of isoformat) xs)"
| "to_jsonable float_of isoformat (Tuple xs) = List (map (to_jsonable float_of isoformat) xs)"
| "to_jsonable float_of isoformat (Float x) = Float x"
| "to_jsonable float_of isoformat (Str x) = Str x"
| "to_jsonable float_of isoformat (Other x) = Other x"

section \<open>Extracting the JSON object of a model response\<close>

definition endswith :: "string \<Rightarrow> string \<Rightarrow> bool" where
  "endswith p s = (length p \<le> length s \<and> drop (length s - length p) s = p)"

text \<open>
  \<open>\\{.*\\}\<close> with \<open>re.DOTALL\<close> at one position: the head is an opening brace, \<open>.*\<close>
  takes every character up to the end and gives back until a closing brace follows, so
  the match ends with the last closing brace of the rest, if there is one.
\<close>

definition brace_span :: "string \<Rightarrow> string option" where
  "brace_span rest =
     (case rest of
        [] \<Rightarrow> None
      | c # cs \<Rightarrow>
          if c = CHR ''{'' \<and> CHR ''}'' \<in> set cs
          then Some (c # rev (dropWhile (\<lambda>x. x \<noteq> CHR ''}'') (rev cs)))
          else None)"

text \<open>\<open>re.search(r"\\{.*\\}", text, flags=re.DOTALL)\<close>: the leftmost match.\<close>

primrec brace_search :: "string \<Rightarrow> string option" where
  "brace_search [] = None"
| "brace_search (c # cs) =
     (case brace_span (c # cs) of Some m \<Rightarrow> Some m | None \<Rightarrow> brace_search cs)"

text \<open>
  \<open>_extract_json\<close>. The argument is \<open>data.get("response", "")\<close>; \<open>None\<close> is Python's
  \<open>None\<close>, which \<open>text or ""\<close> turns into the empty string.
\<close>

definition extract_json :: "string option \<Rightarrow> string" where
  "extract_json text0 =
     (let text = strip (case text0 of None \<Rightarrow> [] | Some t \<Rightarrow> t)
      in if startswith ''{'' text \<and> endswith ''}'' text then text
         else (case brace_search text of Some m \<Rightarrow> m | None \<Rightarrow> text))"

text \<open>
  \<open>ollama_json\<close> from the HTTP response on: its status code, its text and the
  \<open>response\<close> field of its decoded body. \<open>json.loads\<close> is a parameter; \<open>None\<close> stands
  for any exception it raises.
\<close>

datatype bridge_error =
    ModelEndpointError int string
  | ModelOutputUnparseable string

definition ollama_json ::
  "(string \<Rightarrow> 'j option) \<Rightarrow> int \<Rightarrow> string \<Rightarrow> string option \<Rightarrow> bridge_error + 'j" where
  "ollama_json json_loads status_code body response =
     (if status_code \<noteq> 200 then Inl (ModelEndpointError status_code body)
      else let raw = extract_json response
           in (case json_loads raw of
                 Some v \<Rightarrow> Inr v
               | None \<Rightarrow> Inl (ModelOutputUnparseable (take 300 raw))))"

section \<open>The result summarizer\<close>

text \<open>
  A row is a \<open>dict\<close> from column names to values, modelled by its items; a value
  \<open>None\<close> is Python's \<open>None\<close> (SQL \<open>NULL\<close>). A dict holds a key once: a name bound twice
  in the list counts once, with its first binding.
\<close>

type_synonym 'v row = "(string \<times> 'v option) list"

definition keys :: "(string \<times> 'a) list \<Rightarrow> string list" where
  "keys d = remdups (map fst d)"

text \<open>\<open>r.get(c)\<close>: \<open>None\<close> for a missing key as for a key bound to \<open>None\<close>.\<close>

definition get :: "'v row \<Rightarrow> string \<Rightarrow> 'v option" where
  "get r c = (case map_of r c of None \<Rightarrow> None | Some v \<Rightarrow> v)"

text \<open>\<open>d[k] = v\<close>: replaces the value of an existing key, appends a new one.\<close>

primrec dict_set :: "(string \<times> 'a) list \<Rightarrow> string \<Rightarrow> 'a \<Rightarrow> (string \<times> 'a) list" where
  "dict_set [] k v = [(k, v)]"
| "dict_set (p # ps) k v = (if fst p = k then (k, v) # ps else p # dict_set ps k v)"

text \<open>\<open>nulls[c] += 1\<close>: \<open>None\<close> is the \<open>KeyError\<close> of reading a missing key.\<close>

definition dict_incr :: "(string \<times> nat) list \<Rightarrow> string \<Rightarrow> (string \<times> nat) list option" where
  "dict_incr nulls c =
     (case map_of nulls c of None \<Rightarrow> None | Some n \<Rightarrow> Some (dict_set nulls c (n + 1)))"

text \<open>The inner loop \<open>for c in cols\<close> and the outer loop \<open>for r in rows\<close>.\<close>

primrec count_cols :: "'v row \<Rightarrow> string list \<Rightarrow> (string \<times> nat) list \<Rightarrow> (string \<times> nat) list option" where
  "count_cols r [] nulls = Some nulls"
| "count_cols r (c # cs) nulls =
     (if get r c = None
      then (case dict_incr nulls c of None \<Rightarrow> None | Some nulls' \<Rightarrow> count_cols r cs nulls')
      else count_cols r cs nulls)"

primrec count_rows :: "'v row list \<Rightarrow> string list \<Rightarrow> (string \<times> nat) list \<Rightarrow> (string \<times> nat) list option" where
  "count_rows [] cols nulls = Some nulls"
| "count_rows (r # rs) cols nulls =
     (case count_cols r cols nulls of None \<Rightarrow> None | Some nulls' \<Rightarrow> count_rows rs cols nulls')"

datatype py_error = KeyError

record summary =
  preview_row_count :: nat
  nulls :: "(string \<times> nat) list"

definition summarize_rows :: "'v row list \<Rightarrow> py_error + summary" where
  "summarize_rows rows =
     (case rows of
        [] \<Rightarrow> Inr \<lparr>preview_row_count = 0, nulls = []\<rparr>
      | r0 # _ \<Rightarrow>
          let cols = keys r0;
              nulls0 = foldl (\<lambda>d c. dict_set d c 0) [] cols
          in (case count_rows rows cols nulls0 of
                None \<Rightarrow> Inl KeyError
              | Some n \<Rightarrow> Inr \<lparr>preview_row_count = length rows, nulls = n\<rparr>))"

section \<open>The wording of the specification\<close>

text \<open>
  Three notions that the specification uses and the source does not: a text that starts
  with \<open>SELECT\<close> or \<open>WITH\<close> in any case (the pattern \<open>^(SELECT|WITH)\<close>, without the
  \<open>\\b\<close> of the source); the token \<open>from\<close> preceded by the start of the text or by a
  white-space character (a newline, which starts a line, is one); and the rewriting of
  the first \<open>LIMIT <integer>\<close> clause only, which is \<open>re.sub\<close> with \<open>count=1\<close>.
\<close>

definition starts_select_or_with :: "string \<Rightarrow> bool" where
  "starts_select_or_with s = (lower (take 6 s) = ''select'' \<or> lower (take 4 s) = ''with'')"

primrec from_token :: "char option \<Rightarrow> string \<Rightarrow> bool" where
  "from_token prev [] = False"
| "from_token prev (c # cs) =
     ((startswith ''from'' (c # cs) \<and> (case prev of None \<Rightarrow> True | Some p \<Rightarrow> isspace p))
      \<or> from_token (Some c) cs)"

primrec re_sub_limit_first :: "string \<Rightarrow> char option \<Rightarrow> string \<Rightarrow> string" where
  "re_sub_limit_first repl prev [] = []"
| "re_sub_limit_first repl prev (c # cs) =
     (case limit_clause True prev (c # cs) of
        Some m \<Rightarrow> repl @ drop (fst m) (c # cs)
      | None \<Rightarrow> c # re_sub_limit_first repl (Some c) cs)"

section \<open>Properties of the value coercion\<close>

lemma to_jsonable_idem: "to_jsonable f g (to_jsonable f g x) = to_jsonable f g x"
  by (induction x) (auto simp add: map_prod_def split: prod.splits)

text \<open>
  Claim C7. \<open>to_jsonable\<close> maps a \<open>Decimal\<close> to the float \<open>float(x)\<close> and a
  \<open>date\<close>/\<open>datetime\<close> to the string \<open>x.isoformat()\<close>; it coerces the values of a dict
  (keeping the keys and their order) and the elements of a list and of a tuple (a tuple
  comes back as the list of its coerced elements, in order); it returns every other
  value as it is; and coercing a coerced value changes nothing.
\<close>

theorem to_jsonable_coercion:
  "to_jsonable f g (Decimal d) = Float (f d)
   \<and> to_jsonable f g (Date t) = Str (g t)
   \<and> to_jsonable f g (Dict kvs) = Dict (map (\<lambda>(k, v). (k, to_jsonable f g v)) kvs)
   \<and> to_jsonable f g (List xs) = List (map (to_jsonable f g) xs)
   \<and> to_jsonable f g (Tuple xs) = List (map (to_jsonable f g) xs)
   \<and> to_jsonable f g (Float y) = Float y
   \<and> to_jsonable f g (Str s) = Str s
   \<and> to_jsonable f g (Other z) = Other z
   \<and> to_jsonable f g (to_jsonable f g x) = to_jsonable f g x"
  by (simp add: to_jsonable_idem map_prod_def case_prod_beta)

section \<open>Properties of the JSON extraction\<close>

lemma dropWhile_rev_last:
  "x \<notin> set post \<Longrightarrow> dropWhile (\<lambda>y. y \<noteq> x) (rev post @ x # ys) = x # ys"
  by (simp add: dropWhile_append)

lemma brace_search_first:
  "CHR ''{'' \<notin> set pre \<Longrightarrow> CHR ''}'' \<notin> set post \<Longrightarrow>
   brace_search (pre @ CHR ''{'' # mid @ CHR ''}'' # post) = Some (CHR ''{'' # mid @ ''}'')"
proof (induction pre)
  case Nil
  then show ?case by (simp add: brace_span_def dropWhile_rev_last)
next
  case (Cons c pre)
  then show ?case by (auto simp add: brace_span_def)
qed

text \<open>
  Where the text holds no opening brace, or no closing brace, the pattern finds nothing
  and the trimmed text itself is the candidate.
\<close>

lemma brace_search_None_no_close: "CHR ''}'' \<notin> set s \<Longrightarrow> brace_search s = None"
  by (induction s) (auto simp add: brace_span_def)

lemma brace_search_None_no_open: "CHR ''{'' \<notin> set s \<Longrightarrow> brace_search s = None"
  by (induction s) (auto simp add: brace_span_def)

lemma extract_json_no_span:
  "CHR ''{'' \<notin> set (strip raw) \<or> CHR ''}'' \<notin> set (strip raw) \<Longrightarrow>
   extract_json (Some raw) = strip raw"
  by (auto simp add: extract_json_def Let_def brace_search_None_no_close brace_search_None_no_open)

text \<open>
  Claim C6. If the trimmed response starts with an opening brace and ends with a closing
  brace, \<open>_extract_json\<close> returns it as it is. If the trimmed response has a first
  opening brace and, behind it, a last closing brace, the candidate is the span from the
  one through the other, whatever lies between (newlines too). If \<open>json.loads\<close> fails
  on the candidate, \<open>ollama_json\<close> fails with \<open>ModelOutputUnparseable\<close> carrying the first
  300 characters of the candidate at most.
\<close>

theorem extract_json_policy:
  fixes json_loads :: "string \<Rightarrow> 'j option"
  shows
  "(startswith ''{'' (strip raw) \<and> endswith ''}'' (strip raw) \<longrightarrow> extract_json (Some raw) = strip raw)
   \<and> (strip raw = pre @ ''{'' @ mid @ ''}'' @ post \<and> CHR ''{'' \<notin> set pre \<and> CHR ''}'' \<notin> set post
        \<longrightarrow> extract_json (Some raw) = ''{'' @ mid @ ''}'')
   \<and> (json_loads (extract_json resp) = None
        \<longrightarrow> ollama_json json_loads 200 body resp
              = Inl (ModelOutputUnparseable (take 300 (extract_json resp)))
            \<and> length (take 300 (extract_json resp)) \<le> 300)"
proof (intro conjI impI)
  assume "startswith ''{'' (strip raw) \<and> endswith ''}'' (strip raw)"
  then show "extract_json (Some raw) = strip raw" by (simp add: extract_json_def)
next
  assume a: "strip raw = pre @ ''{'' @ mid @ ''}'' @ post \<and> CHR ''{'' \<notin> set pre \<and> CHR ''}'' \<notin> set post"
  then have s: "brace_search (strip raw) = Some (''{'' @ mid @ ''}'')"
    using brace_search_first [of pre post mid] by simp
  show "extract_json (Some raw) = ''{'' @ mid @ ''}''"
  proof (cases "startswith ''{'' (strip raw) \<and> endswith ''}'' (strip raw)")
    case True
    with a have "pre = []" by (cases pre) (auto simp add: startswith_def)
    moreover from True a have "post = []"
      by (cases post rule: rev_cases) (auto simp add: endswith_def)
    ultimately show ?thesis using a True by (simp add: extract_json_def)
  next
    case False
    then show ?thesis using s by (auto simp add: extract_json_def)
  qed
next
  assume "json_loads (extract_json resp) = None"
  then show "ollama_json json_loads 200 body resp
      = Inl (ModelOutputUnparseable (take 300 (extract_json resp)))"
    by (simp add: ollama_json_def)
next
  show "length (take 300 (extract_json resp)) \<le> 300" by simp
qed

lemma isspace_samples:
  "isspace CHR '' ''" "\<not> isspace CHR ''{''" "\<not> isspace CHR ''}''"
  "\<not> isspace CHR ''x''" "\<not> isspace CHR ''y''"
  by (simp_all add: isspace_def)

text \<open>
  The three cases at concrete responses: an object between blanks, an object inside
  other text, and a response that does not parse.
\<close>

theorem extract_json_policy_witness:
  "extract_json (Some '' {a} '') = ''{a}'' \<and> extract_json (Some ''x {a} y'') = ''{a}''
   \<and> ollama_json (\<lambda>s. None :: unit option) 200 '''' (Some ''x'')
       = Inl (ModelOutputUnparseable ''x'')"
  using extract_json_policy [of "'' {a} ''" "''''" "''a''" "''''"
                                "\<lambda>s. None :: unit option" "Some ''x''" "''''"]
        extract_json_policy [of "''x {a} y''" "''x ''" "''a''" "'' y''"
                                "\<lambda>s. None :: unit option" "Some ''x''" "''''"]
  by (simp add: strip_def isspace_samples startswith_def endswith_def extract_json_def
                brace_span_def Let_def ollama_json_def)

section \<open>Properties of the result summarizer\<close>

text \<open>
  The dictionary operations, read through \<open>map_of\<close>: the keys and the value of each key
  after an assignment, after the comprehension \<open>{c: 0 for c in cols}\<close> and after the
  two loops. No \<open>nulls[c] += 1\<close> meets a missing key, since \<open>cols\<close> are the keys of
  \<open>nulls\<close>.
\<close>

lemma map_of_dict_set: "map_of (dict_set d k v) = (map_of d)(k \<mapsto> v)"
  by (induction d) (auto simp add: fun_eq_iff)

lemma keys_dict_set: "fst ` set (dict_set d k v) = insert k (fst ` set d)"
  by (induction d) auto

lemma distinct_dict_set: "distinct (map fst d) \<Longrightarrow> distinct (map fst (dict_set d k v))"
  by (induction d) (auto simp add: keys_dict_set)

lemma dict_comprehension:
  "map_of (foldl (\<lambda>d c. dict_set d c (0::nat)) d0 cols) = (\<lambda>c. if c \<in> set cols then Some 0 else map_of d0 c)
   \<and> fst ` set (foldl (\<lambda>d c. dict_set d c (0::nat)) d0 cols) = fst ` set d0 \<union> set cols
   \<and> (distinct (map fst d0) \<longrightarrow> distinct (map fst (foldl (\<lambda>d c. dict_set d c (0::nat)) d0 cols)))"
  by (induction cols arbitrary: d0) (auto simp add: map_of_dict_set keys_dict_set distinct_dict_set fun_eq_iff)

lemma dict_incr_Some:
  "c \<in> fst ` set d \<Longrightarrow> \<exists>d'. dict_incr d c = Some d' \<and> fst ` set d' = fst ` set d
     \<and> (distinct (map fst d) \<longrightarrow> distinct (map fst d'))
     \<and> map_of d' = (\<lambda>x. if x = c then map_option Suc (map_of d c) else map_of d x)"
proof -
  assume c: "c \<in> fst ` set d"
  then obtain n where n: "map_of d c = Some n"
    by (metis domD dom_map_of_conv_image_fst)
  with c show ?thesis
    by (auto simp add: dict_incr_def keys_dict_set map_of_dict_set distinct_dict_set fun_eq_iff)
qed

lemma count_cols_Some:
  "set cols \<subseteq> fst ` set d \<Longrightarrow> distinct cols \<Longrightarrow>
   \<exists>d'. count_cols r cols d = Some d' \<and> fst ` set d' = fst ` set d
     \<and> (distinct (map fst d) \<longrightarrow> distinct (map fst d'))
     \<and> map_of d' = (\<lambda>x. if x \<in> set cols \<and> get r x = None then map_option Suc (map_of d x) else map_of d x)"
proof (induction cols arbitrary: d)
  case Nil
  then show ?case by simp
next
  case (Cons c cols)
  show ?case
  proof (cases "get r c = None")
    case True
    from Cons.prems obtain d1 where d1: "dict_incr d c = Some d1" "fst ` set d1 = fst ` set d"
      "distinct (map fst d) \<longrightarrow> distinct (map fst d1)"
      "map_of d1 = (\<lambda>x. if x = c then map_option Suc (map_of d c) else map_of d x)"
      using dict_incr_Some [of c d] by auto
    from Cons.prems d1 have "set cols \<subseteq> fst ` set d1" "distinct cols" by auto
    from Cons.IH [OF this] obtain d' where d': "count_cols r cols d1 = Some d'"
      "fst ` set d' = fst ` set d1" "distinct (map fst d1) \<longrightarrow> distinct (map fst d')"
      "map_of d' = (\<lambda>x. if x \<in> set cols \<and> get r x = None then map_option Suc (map_of d1 x) else map_of d1 x)"
      by auto
    from Cons.prems have "c \<notin> set cols" by simp
    with True d1 d' show ?thesis by (auto simp add: fun_eq_iff)
  next
    case False
    from Cons.prems have "set cols \<subseteq> fst ` set d" "distinct cols" by auto
    from Cons.IH [OF this] False show ?thesis by (auto simp add: fun_eq_iff)
  qed
qed

lemma count_rows_Some:
  "set cols \<subseteq> fst ` set d \<Longrightarrow> distinct cols \<Longrightarrow>
   \<exists>d'. count_rows rows cols d = Some d' \<and> fst ` set d' = fst ` set d
     \<and> (distinct (map fst d) \<longrightarrow> distinct (map fst d'))
     \<and> map_of d' = (\<lambda>x. if x \<in> set cols
                          then map_option (\<lambda>k. k + length (filter (\<lambda>r. get r x = None) rows)) (map_of d x)
                          else map_of d x)"
proof (induction rows arbitrary: d)
  case Nil
  then show ?case by (auto simp add: fun_eq_iff option.map_ident)
next
  case (Cons r rows)
  from count_cols_Some [OF Cons.prems, of r] obtain d1 where d1: "count_cols r cols d = Some d1"
    "fst ` set d1 = fst ` set d" "distinct (map fst d) \<longrightarrow> distinct (map fst d1)"
    "map_of d1 = (\<lambda>x. if x \<in> set cols \<and> get r x = None then map_option Suc (map_of d x) else map_of d x)"
    by auto
  from Cons.prems d1 have "set cols \<subseteq> fst ` set d1" "distinct cols" by auto
  from Cons.IH [OF this] obtain d' where d': "count_rows rows cols d1 = Some d'"
    "fst ` set d' = fst ` set d1" "distinct (map fst d1) \<longrightarrow> distinct (map fst d')"
    "map_of d' = (\<lambda>x. if x \<in> set cols
                          then map_option (\<lambda>k. k + length (filter (\<lambda>r. get r x = None) rows)) (map_of d1 x)
                          else map_of d1 x)"
    by auto
  with d1 show ?case by (auto simp add: fun_eq_iff option.map_comp comp_def intro!: option.map_cong)
qed

lemma summarize_rows_nonempty:
  assumes "rows \<noteq> []"
  shows "\<exists>n. summarize_rows rows = Inr \<lparr>preview_row_count = length rows, nulls = n\<rparr>
           \<and> fst ` set n = set (keys (hd rows)) \<and> distinct (map fst n)
           \<and> map_of n = (\<lambda>c. if c \<in> set (keys (hd rows))
                               then Some (length (filter (\<lambda>r. get r c = None) rows)) else None)"
proof -
  from assms obtain r0 rs where rows: "rows = r0 # rs" by (cases rows) auto
  let ?cols = "keys r0"
  let ?d0 = "foldl (\<lambda>d c. dict_set d c (0::nat)) [] ?cols"
  have d0: "map_of ?d0 = (\<lambda>c. if c \<in> set ?cols then Some 0 else None)"
    "fst ` set ?d0 = set ?cols" "distinct (map fst ?d0)"
    using dict_comprehension [of "[]" ?cols] by auto
  have "set ?cols \<subseteq> fst ` set ?d0" "distinct ?cols" using d0 by (auto simp add: keys_def)
  from count_rows_Some [OF this, of rows] obtain d' where d': "count_rows rows ?cols ?d0 = Some d'"
    "fst ` set d' = fst ` set ?d0" "distinct (map fst ?d0) \<longrightarrow> distinct (map fst d')"
    "map_of d' = (\<lambda>x. if x \<in> set ?cols
                          then map_option (\<lambda>k. k + length (filter (\<lambda>r. get r x = None) rows)) (map_of ?d0 x)
                          else map_of ?d0 x)"
    by auto
  have "summarize_rows rows = Inr \<lparr>preview_row_count = length rows, nulls = d'\<rparr>"
    using d'(1) rows by (simp add: summarize_rows_def Let_def)
  moreover have "map_of d' = (\<lambda>c. if c \<in> set ?cols
                               then Some (length (filter (\<lambda>r. get r c = None) rows)) else None)"
    unfolding d'(4) d0(1) by (auto simp add: fun_eq_iff)
  ultimately show ?thesis using d' d0 rows by auto
qed

lemma get_None_iff: "get r c = None \<longleftrightarrow> c \<notin> fst ` set r \<or> map_of r c = Some None"
  by (auto simp add: get_def map_of_eq_None_iff split: option.splits dest: map_of_SomeD)
     (metis fst_conv image_eqI map_of_SomeD)

text \<open>
  Claim C8. On the empty sequence \<open>summarize_rows\<close> returns row count 0 and an empty
  null-count mapping, without error. On a non-empty sequence it returns, without error,
  the number of rows and a mapping that gives every column of the first row the number
  of rows in which \<open>r.get(c)\<close> is \<open>None\<close>.
\<close>

theorem summarize_rows_counts:
  fixes rows :: "'v row list"
  shows
  "summarize_rows ([] :: 'v row list) = Inr \<lparr>preview_row_count = 0, nulls = []\<rparr>
   \<and> (rows \<noteq> [] \<longrightarrow>
        (\<exists>n. summarize_rows rows = Inr \<lparr>preview_row_count = length rows, nulls = n\<rparr>
           \<and> (\<forall>c. c \<in> set (keys (hd rows)) \<longrightarrow>
                  map_of n c = Some (length (filter (\<lambda>r. get r c = None) rows)))))"
proof (intro conjI impI)
  show "summarize_rows ([] :: 'v row list) = Inr \<lparr>preview_row_count = 0, nulls = []\<rparr>"
    by (simp add: summarize_rows_def)
next
  assume "rows \<noteq> []"
  from summarize_rows_nonempty [OF this] obtain n where
    n: "summarize_rows rows = Inr \<lparr>preview_row_count = length rows, nulls = n\<rparr>"
       "map_of n = (\<lambda>c. if c \<in> set (keys (hd rows))
                          then Some (length (filter (\<lambda>r. get r c = None) rows)) else None)"
    by blast
  show "\<exists>n. summarize_rows rows = Inr \<lparr>preview_row_count = length rows, nulls = n\<rparr>
           \<and> (\<forall>c. c \<in> set (keys (hd rows)) \<longrightarrow>
                  map_of n c = Some (length (filter (\<lambda>r. get r c = None) rows)))"
    using n by auto
qed

text \<open>A column that is null in 2 of 5 preview rows gets the null count 2.\<close>

theorem summarize_rows_counts_witness:
  "[[(''price'', None)], [(''price'', Some (1::nat))], [(''price'', None)],
    [(''price'', Some 2)], [(''price'', Some 3)]] \<noteq> []
   \<and> summarize_rows [[(''price'', None)], [(''price'', Some (1::nat))], [(''price'', None)],
                       [(''price'', Some 2)], [(''price'', Some 3)]]
       = Inr \<lparr>preview_row_count = 5, nulls = [(''price'', 2)]\<rparr>"
  using summarize_rows_counts [of "[[(''price'', None)], [(''price'', Some (1::nat))],
          [(''price'', None)], [(''price'', Some 2)], [(''price'', Some 3)]]"]
  by (simp add: summarize_rows_def keys_def get_def dict_incr_def)

text \<open>
  Claim C10. On a non-empty sequence the summarizer returns a mapping whose keys are
  exactly the columns of the first row, each once; every null count is at most the
  reported row count (and, being a natural number, at least 0); and the null count of a
  column is the number of rows that lack the column or hold \<open>None\<close> in it, so a row
  without the column counts as a row where it is null.
\<close>

theorem summarize_rows_invariant:
  fixes rows :: "'v row list"
  assumes "rows \<noteq> []"
  shows "\<exists>s. summarize_rows rows = Inr s
           \<and> set (map fst (nulls s)) = fst ` set (hd rows) \<and> distinct (map fst (nulls s))
           \<and> (\<forall>c k. map_of (nulls s) c = Some k \<longrightarrow> k \<le> preview_row_count s)
           \<and> (\<forall>c. c \<in> fst ` set (hd rows) \<longrightarrow>
                  map_of (nulls s) c
                  = Some (length (filter (\<lambda>r. c \<notin> fst ` set r \<or> map_of r c = Some None) rows)))"
proof -
  from summarize_rows_nonempty [OF assms] obtain n where
    n: "summarize_rows rows = Inr \<lparr>preview_row_count = length rows, nulls = n\<rparr>"
       "fst ` set n = set (keys (hd rows))" "distinct (map fst n)"
       "map_of n = (\<lambda>c. if c \<in> set (keys (hd rows))
                          then Some (length (filter (\<lambda>r. get r c = None) rows)) else None)"
    by blast
  have k: "set (keys (hd rows)) = fst ` set (hd rows)" by (simp add: keys_def)
  have b: "\<forall>c k. map_of n c = Some k \<longrightarrow> k \<le> length rows"
    unfolding n(4) by (auto split: if_splits)
  have "\<forall>c. c \<in> fst ` set (hd rows) \<longrightarrow>
          map_of n c = Some (length (filter (\<lambda>r. c \<notin> fst ` set r \<or> map_of r c = Some None) rows))"
    unfolding n(4) k by (simp add: get_None_iff)
  with n k b show ?thesis by auto
qed

text \<open>The second row has no column \<open>b\<close> and is counted for it.\<close>

theorem summarize_rows_invariant_witness:
  "[[(''a'', Some (1::nat)), (''b'', None)], [(''a'', Some 2)]] \<noteq> []
   \<and> summarize_rows [[(''a'', Some (1::nat)), (''b'', None)], [(''a'', Some 2)]]
       = Inr \<lparr>preview_row_count = 2, nulls = [(''a'', 0), (''b'', 2)]\<rparr>"
  using summarize_rows_invariant [of "[[(''a'', Some (1::nat)), (''b'', None)], [(''a'', Some 2)]]"]
  by (simp add: summarize_rows_def keys_def get_def dict_incr_def)

section \<open>Properties of the validator\<close>

subsection \<open>Character classes\<close>

lemma of_char_lower_char:
  "(of_char (lower_char c) :: nat) =
     (let n = of_char c
      in if (65 \<le> n \<and> n \<le> 90) \<or> (192 \<le> n \<and> n \<le> 222 \<and> n \<noteq> 215) then n + 32 else n)"
  by (auto simp add: lower_char_def Let_def)

lemma isspace_not_isword: "isspace c \<Longrightarrow> \<not> isword c"
  by (auto simp add: isspace_def isword_def Let_def)

lemma isdigit_isword: "isdigit c \<Longrightarrow> isword c"
  by (auto simp add: isdigit_def isword_def Let_def)

lemma isspace_not_isdigit: "isspace c \<Longrightarrow> \<not> isdigit c"
  by (auto simp add: isspace_def isdigit_def Let_def)

lemma isspace_lower_char [simp]: "isspace (lower_char c) = isspace c"
  unfolding isspace_def of_char_lower_char Let_def by auto

lemma isdigit_lower_char [simp]: "isdigit (lower_char c) = isdigit c"
  unfolding isdigit_def of_char_lower_char Let_def by auto

lemma upper_isword:
  assumes "(65 \<le> (of_char c :: nat) \<and> (of_char c :: nat) \<le> 90)
           \<or> (192 \<le> (of_char c :: nat) \<and> (of_char c :: nat) \<le> 222 \<and> (of_char c :: nat) \<noteq> 215)"
  shows "isword c"
proof -
  from assms have "(65 \<le> (of_char c :: nat) \<and> (of_char c :: nat) \<le> 90)
      \<or> (192 \<le> (of_char c :: nat) \<and> (of_char c :: nat) \<le> 214)
      \<or> (216 \<le> (of_char c :: nat) \<and> (of_char c :: nat) \<le> 246)"
    by linarith
  then show ?thesis unfolding isword_def Let_def by blast
qed

lemma not_isword_lower_char_id: "\<not> isword c \<Longrightarrow> lower_char c = c"
  using upper_isword [of c] by (auto simp add: lower_char_def Let_def)

lemma isword_lower_char [simp]: "isword (lower_char c) = isword c"
proof (cases "lower_char c = c")
  case True
  then show ?thesis by simp
next
  case False
  let ?n = "of_char c :: nat"
  have u: "(65 \<le> ?n \<and> ?n \<le> 90) \<or> (192 \<le> ?n \<and> ?n \<le> 222 \<and> ?n \<noteq> 215)"
  proof (rule ccontr)
    assume "\<not> ?thesis"
    then have "lower_char c = c" by (auto simp add: lower_char_def Let_def)
    with False show False by simp
  qed
  then have "(of_char (lower_char c) :: nat) = ?n + 32"
    by (auto simp add: lower_char_def Let_def)
  with u have "(97 \<le> (of_char (lower_char c) :: nat) \<and> (of_char (lower_char c) :: nat) \<le> 122)
      \<or> (216 \<le> (of_char (lower_char c) :: nat) \<and> (of_char (lower_char c) :: nat) \<le> 246)
      \<or> 248 \<le> (of_char (lower_char c) :: nat)"
    by presburger
  then have "isword (lower_char c)" unfolding isword_def Let_def by blast
  moreover from u have "isword c" by (rule upper_isword)
  ultimately show ?thesis by simp
qed

lemma lower_char_idem [simp]: "lower_char (lower_char c) = lower_char c"
  by (subst (1) lower_char_def) (auto simp add: of_char_lower_char Let_def)

lemma isspace_lower_char_id: "isspace c \<Longrightarrow> lower_char c = c"
  by (simp add: isspace_not_isword not_isword_lower_char_id)

lemma isdigit_lower_char_id: "isdigit c \<Longrightarrow> lower_char c = c"
  by (auto simp add: isdigit_def lower_char_def Let_def)

subsection \<open>Lower-casing a string\<close>

lemma lower_simps [simp]:
  "lower [] = []" "lower (c # cs) = lower_char c # lower cs" "lower (a @ b) = lower a @ lower b"
  "length (lower a) = length a" "lower (lower a) = lower a"
  by (simp_all add: lower_def)

lemma lower_take_drop:
  "lower (take n a) = take n (lower a)" "lower (drop n a) = drop n (lower a)"
  by (simp_all add: lower_def take_map drop_map)

lemma lower_eq_Nil [simp]: "lower a = [] \<longleftrightarrow> a = []"
  by (simp add: lower_def)

lemma takeWhile_lower:
  assumes "\<And>c. P (lower_char c) = P c"
  shows "takeWhile P (lower a) = lower (takeWhile P a)" "dropWhile P (lower a) = lower (dropWhile P a)"
  using assms by (induction a) auto

lemmas takeWhile_isword_lower = takeWhile_lower [of isword, OF isword_lower_char]
lemmas takeWhile_isspace_lower = takeWhile_lower [of isspace, OF isspace_lower_char]
lemmas takeWhile_isdigit_lower = takeWhile_lower [of isdigit, OF isdigit_lower_char]

lemma lower_digits: "\<forall>c\<in>set ds. isdigit c \<Longrightarrow> lower ds = ds"
  by (induction ds) (auto simp add: isdigit_lower_char_id)

subsection \<open>Trimming\<close>

lemma strip_Nil [simp]: "strip [] = []"
  by (simp add: strip_def)

lemma strip_eq_Nil_iff: "strip s = [] \<longleftrightarrow> (\<forall>c\<in>set s. isspace c)"
proof
  assume "\<forall>c\<in>set s. isspace c"
  then have "dropWhile isspace s = []" by simp
  then show "strip s = []" by (simp only: strip_def rev.simps dropWhile.simps)
next
  assume e: "strip s = []"
  let ?d = "dropWhile isspace s"
  from e have "dropWhile isspace (rev ?d) = []" by (simp add: strip_def)
  then have a: "\<forall>c\<in>set ?d. isspace c" by (simp only: dropWhile_eq_Nil_conv set_rev)
  have "?d = []"
  proof (rule ccontr)
    assume ne: "?d \<noteq> []"
    then have "\<not> isspace (hd ?d)" by (rule hd_dropWhile)
    moreover from ne have "hd ?d \<in> set ?d" by (rule hd_in_set)
    ultimately show False using a by blast
  qed
  then show "\<forall>c\<in>set s. isspace c" by (simp only: dropWhile_eq_Nil_conv)
qed

lemma strip_id: "s = [] \<or> (\<not> isspace (hd s) \<and> \<not> isspace (last s)) \<Longrightarrow> strip s = s"
proof (cases s)
  case Nil
  then show ?thesis by simp
next
  case (Cons c cs)
  assume "s = [] \<or> (\<not> isspace (hd s) \<and> \<not> isspace (last s))"
  with Cons have h: "\<not> isspace c" "\<not> isspace (last s)" by auto
  from h(1) Cons have 1: "dropWhile isspace s = s" by simp
  from Cons have "s = butlast s @ [last s]" by simp
  then have "rev s = rev (butlast s @ [last s])" by (rule arg_cong)
  then have "rev s = last s # rev (butlast s)" by (simp only: rev_append rev.simps append.simps)
  then have "dropWhile isspace (rev s) = rev s" using h(2)
    by (metis dropWhile.simps(2))
  with 1 show ?thesis by (simp add: strip_def)
qed

lemma last_dropWhile_ne: "dropWhile P xs \<noteq> [] \<Longrightarrow> last (dropWhile P xs) = last xs"
  by (induction xs) (auto split: if_splits)

lemma strip_ends: "strip s \<noteq> [] \<Longrightarrow> \<not> isspace (hd (strip s)) \<and> \<not> isspace (last (strip s))"
proof -
  assume ne: "strip s \<noteq> []"
  let ?e = "dropWhile isspace s"
  let ?d = "dropWhile isspace (rev ?e)"
  from ne have d: "?d \<noteq> []" by (simp add: strip_def)
  then have "\<not> isspace (hd ?d)" by (rule hd_dropWhile)
  with d have l: "\<not> isspace (last (strip s))" by (simp add: strip_def last_rev)
  have e: "?e \<noteq> []"
  proof
    assume "?e = []"
    then have "?d = []" by (simp only: rev.simps dropWhile.simps)
    with d show False by simp
  qed
  then have h: "\<not> isspace (hd ?e)" by (rule hd_dropWhile)
  have "hd (strip s) = last ?d" using d by (simp add: strip_def hd_rev)
  also have "\<dots> = last (rev ?e)" using d by (rule last_dropWhile_ne)
  also have "\<dots> = hd ?e" using e by (simp add: last_rev)
  finally show ?thesis using h l by simp
qed

lemma strip_idem [simp]: "strip (strip s) = strip s"
  using strip_ends [of s] strip_id [of "strip s"] by blast

subsection \<open>Word runs\<close>

text \<open>
  A keyword made of word characters matches \<open>\\bkw\\b\<close> at a position exactly when the
  position follows a non-word character (or starts the string) and the maximal run of
  word characters that starts there is the keyword.
\<close>

lemma run_split:
  "\<forall>c\<in>set a. P c \<Longrightarrow> b = [] \<or> \<not> P (hd b) \<Longrightarrow>
   takeWhile P (a @ b) = a \<and> dropWhile P (a @ b) = b"
  by (cases b) (auto simp add: takeWhile_append2 dropWhile_append2)

lemma takeWhile_snoc_not: "\<not> P c \<Longrightarrow> takeWhile P (s @ [c]) = takeWhile P s"
  by (induction s) auto

lemma is_word_opt_head_dropWhile [simp]: "\<not> is_word_opt (head_opt (dropWhile isword x))"
  by (induction x) auto

lemma kw_run:
  assumes kw: "kw \<noteq> []" "\<forall>k\<in>set kw. isword k"
  shows "lit ic kw x \<and> at_boundary (Some (last (take (length kw) x))) (drop (length kw) x)
         \<longleftrightarrow> (if ic then lower (takeWhile isword x) else takeWhile isword x) = kw"
    (is "?L \<longleftrightarrow> ?R")
proof
  assume L: ?L
  let ?n = "length kw"
  let ?a = "take ?n x" and ?b = "drop ?n x"
  from L have eq: "(if ic then lower ?a else ?a) = kw" by (simp add: lit_def)
  then have "length (if ic then lower ?a else ?a) = ?n" by (simp only:)
  then have len: "length ?a = ?n" by (simp split: if_splits)
  have w: "\<forall>c\<in>set ?a. isword c"
  proof (cases ic)
    case True
    with eq have "map lower_char ?a = kw" by (simp add: lower_def)
    then have "set kw = lower_char ` set ?a" by (auto simp add: set_map [symmetric] simp del: set_map)
    with kw(2) have "\<forall>c\<in>set ?a. isword (lower_char c)" by blast
    then show ?thesis by simp
  next
    case False
    with eq kw(2) show ?thesis by simp
  qed
  from len kw(1) have ne: "?a \<noteq> []" by auto
  then have "isword (last ?a)" using w last_in_set by blast
  with L have "\<not> is_word_opt (head_opt ?b)" by (simp add: at_boundary_def)
  then have "?b = [] \<or> \<not> isword (hd ?b)" by (cases ?b) auto
  with w have "takeWhile isword (?a @ ?b) = ?a" using run_split by blast
  then have "takeWhile isword x = ?a" by simp
  then show ?R using eq by (simp only:)
next
  assume R: ?R
  let ?w = "takeWhile isword x"
  from R have "length (if ic then lower ?w else ?w) = length kw" by (simp only:)
  then have len: "length ?w = length kw" by (simp split: if_splits)
  have x: "x = ?w @ dropWhile isword x" by simp
  have t: "take (length kw) x = ?w"
    by (subst x) (simp add: len [symmetric] del: takeWhile_dropWhile_id)
  have d: "drop (length kw) x = dropWhile isword x"
    by (subst x) (simp add: len [symmetric] del: takeWhile_dropWhile_id)
  from len kw(1) have ne: "?w \<noteq> []" by auto
  then have "last ?w \<in> set ?w" by simp
  then have "isword (last ?w)" by (meson set_takeWhileD)
  with R t d show ?L by (auto simp add: lit_def at_boundary_def)
qed

lemma alt_word_run:
  assumes "\<forall>kw\<in>set kws. kw \<noteq> [] \<and> (\<forall>k\<in>set kw. isword k)"
  shows "alt_word ic kws x
         \<longleftrightarrow> (if ic then lower (takeWhile isword x) else takeWhile isword x) \<in> set kws"
  using assms
proof (induction kws)
  case Nil
  then show ?case by (simp add: alt_word_def)
next
  case (Cons kw kws)
  then have kw: "kw \<noteq> []" "\<forall>k\<in>set kw. isword k" by auto
  have "alt_word ic (kw # kws) x \<longleftrightarrow>
    (lit ic kw x \<and> at_boundary (Some (last (take (length kw) x))) (drop (length kw) x))
    \<or> alt_word ic kws x"
    by (simp add: alt_word_def)
  with Cons kw_run [OF kw, of ic x] show ?case by auto
qed

lemma word_at_run:
  assumes "\<forall>kw\<in>set kws. kw \<noteq> [] \<and> (\<forall>k\<in>set kw. isword k)"
  shows "word_at ic kws p x
         \<longleftrightarrow> \<not> is_word_opt p
             \<and> (if ic then lower (takeWhile isword x) else takeWhile isword x) \<in> set kws"
proof -
  have "at_boundary p x = (\<not> is_word_opt p)"
    if "(if ic then lower (takeWhile isword x) else takeWhile isword x) \<in> set kws"
  proof -
    from that assms have "(if ic then lower (takeWhile isword x) else takeWhile isword x) \<noteq> []"
      by blast
    then have "takeWhile isword x \<noteq> []" by (simp split: if_splits)
    then have "is_word_opt (head_opt x)" by (cases x) (auto split: if_splits)
    then show ?thesis by (simp add: at_boundary_def)
  qed
  then show ?thesis unfolding word_at_def alt_word_run [OF assms] by blast
qed

lemma BANNED_words_word: "\<forall>kw\<in>set BANNED_words. kw \<noteq> [] \<and> (\<forall>k\<in>set kw. isword k)"
  by (simp add: BANNED_words_def isword_def)

lemma limit_word: "\<forall>kw\<in>set [''limit'']. kw \<noteq> [] \<and> (\<forall>k\<in>set kw. isword k)"
  by (simp add: isword_def)

lemma select_with_word: "\<forall>kw\<in>set [''select'', ''with'']. kw \<noteq> [] \<and> (\<forall>k\<in>set kw. isword k)"
  by (simp add: isword_def)

subsection \<open>Searching for a keyword\<close>

lemma search_prev_cong:
  "is_word_opt p = is_word_opt p' \<Longrightarrow> search (word_at ic kws) p x = search (word_at ic kws) p' x"
  by (cases x) (simp_all add: word_at_def at_boundary_def)

lemma search_nonword_Cons:
  assumes "\<forall>kw\<in>set kws. kw \<noteq> [] \<and> (\<forall>k\<in>set kw. isword k)" and "\<not> isword c"
  shows "search (word_at ic kws) p (c # x) = search (word_at ic kws) None x"
proof -
  from assms have "\<not> word_at ic kws p (c # x)" by (auto simp add: word_at_run [OF assms(1)])
  moreover from assms(2) have "search (word_at ic kws) (Some c) x = search (word_at ic kws) None x"
    by (intro search_prev_cong) simp
  ultimately show ?thesis by simp
qed

lemma search_Nil:
  assumes "\<forall>kw\<in>set kws. kw \<noteq> [] \<and> (\<forall>k\<in>set kw. isword k)"
  shows "\<not> search (word_at ic kws) p []"
  using assms by (auto simp add: word_at_run [OF assms])

lemma search_dropWhile_isspace:
  assumes "\<forall>kw\<in>set kws. kw \<noteq> [] \<and> (\<forall>k\<in>set kw. isword k)"
  shows "search (word_at ic kws) None (dropWhile isspace s) = search (word_at ic kws) None s"
  by (induction s) (simp_all add: search_nonword_Cons [OF assms] isspace_not_isword del: search.simps)

lemma search_snoc_nonword:
  assumes "\<forall>kw\<in>set kws. kw \<noteq> [] \<and> (\<forall>k\<in>set kw. isword k)" and "\<not> isword c"
  shows "search (word_at ic kws) p (s @ [c]) = search (word_at ic kws) p s"
proof (induction s arbitrary: p)
  case Nil
  show ?case using search_Nil [OF assms(1)]
    by (simp add: search_nonword_Cons [OF assms] del: search.simps)
next
  case (Cons a s)
  have "word_at ic kws p (a # s @ [c]) = word_at ic kws p (a # s)"
    unfolding word_at_run [OF assms(1)]
    using takeWhile_snoc_not [of isword c "a # s"] assms(2) by simp
  with Cons show ?case by simp
qed

lemma search_rev_dropWhile_isspace:
  assumes "\<forall>kw\<in>set kws. kw \<noteq> [] \<and> (\<forall>k\<in>set kw. isword k)"
  shows "search (word_at ic kws) p (rev (dropWhile isspace xs)) = search (word_at ic kws) p (rev xs)"
  by (induction xs) (simp_all add: search_snoc_nonword [OF assms] isspace_not_isword del: search.simps)

lemma search_strip:
  assumes "\<forall>kw\<in>set kws. kw \<noteq> [] \<and> (\<forall>k\<in>set kw. isword k)"
  shows "search (word_at ic kws) None (strip s) = search (word_at ic kws) None s"
  unfolding strip_def
  by (simp add: search_rev_dropWhile_isspace [OF assms] search_dropWhile_isspace [OF assms])

lemma BANNED_search_strip: "BANNED_search (strip s) = BANNED_search s"
  by (simp add: BANNED_search_def search_strip [OF BANNED_words_word])

subsection \<open>Evaluating the validator on a given string\<close>

text \<open>
  Equations that decide a matcher character by character, so that the simplifier runs
  the validator on a concrete string and stops at the first mismatch.
\<close>

lemma lit_Nil: "lit ic [] rest = True"
  by (simp add: lit_def)

lemma lit_Cons_Nil: "lit ic (p # ps) [] = False"
  by (simp add: lit_def)

lemma lit_Cons_Cons:
  "lit ic (p # ps) (c # cs) = (if (if ic then lower_char c else c) = p then lit ic ps cs else False)"
  by (auto simp add: lit_def)

lemma alt_word_Nil: "alt_word ic [] rest = False"
  by (simp add: alt_word_def)

lemma alt_word_Cons:
  "alt_word ic (kw # kws) rest =
     (if lit ic kw rest
      then (if at_boundary (Some (last (take (length kw) rest))) (drop (length kw) rest)
            then True else alt_word ic kws rest)
      else alt_word ic kws rest)"
  by (simp add: alt_word_def)

lemma word_at_if:
  "word_at ic kws prev rest = (if at_boundary prev rest then alt_word ic kws rest else False)"
  by (simp add: word_at_def)

lemma search_Cons:
  "search m prev (c # cs) = (if m prev (c # cs) then True else search m (Some c) cs)"
  by simp

lemma startswith_Nil: "startswith [] s = True"
  by (simp add: startswith_def)

lemma startswith_Cons_Nil: "startswith (p # ps) [] = False"
  by (simp add: startswith_def)

lemma startswith_Cons_Cons:
  "startswith (p # ps) (c # cs) = (if c = p then startswith ps cs else False)"
  by (auto simp add: startswith_def)

lemma str_in_Cons: "str_in p (c # cs) = (if startswith p (c # cs) then True else str_in p cs)"
  by simp

lemma limit_clause_if:
  "limit_clause ic prev rest =
     (if at_boundary prev rest then
        if lit ic ''limit'' rest then
          let r1 = drop 5 rest;
              ws = takeWhile isspace r1; r2 = dropWhile isspace r1;
              ds = takeWhile isdigit r2; r3 = dropWhile isdigit r2
          in if ws \<noteq> [] \<and> ds \<noteq> [] \<and> at_boundary (Some (last ds)) r3
             then Some (5 + length ws + length ds, ds) else None
        else None
      else None)"
  by (simp add: limit_clause_def)

lemmas validate_eval =
  validate_sql_def strip_def lower_char_def isspace_def isdigit_def isword_def
  read_query_match_def alt_word_Nil alt_word_Cons lit_Nil lit_Cons_Nil lit_Cons_Cons
  at_boundary_def BANNED_search_def word_at_if BANNED_words_def single_statement_def
  from_clause_def startswith_Nil startswith_Cons_Nil startswith_Cons_Cons str_in.simps(1)
  str_in_Cons limit_word_search_def limit_clause_if Let_def int_of_digits_def digits_value_def
  digit_val_def int_max_str_digits_def py_str_def
  str_int_def search.simps(1) search_Cons char_of_def bit_Suc_0_iff digit_char_def
  str_nat.simps

subsection \<open>The read-query check\<close>

lemma read_query_match_starts:
  assumes "read_query_match s"
  shows "starts_select_or_with s"
proof -
  have l6: "length ''select'' = 6" and l4: "length ''with'' = 4" by simp_all
  from assms have "lit True ''select'' s \<or> lit True ''with'' s"
    by (auto simp add: read_query_match_def alt_word_def)
  then show ?thesis unfolding lit_def l6 l4 starts_select_or_with_def by simp
qed

text \<open>
  Claim C5, amended. A non-empty string that, once trimmed, does not start with
  \<open>SELECT\<close> or \<open>WITH\<close> (in any case) is rejected with \<open>NotAReadQuery\<close>; the empty
  string is rejected by the check before, with \<open>EmptyOutput\<close>.
\<close>

theorem validate_sql_not_read_query:
  "\<not> starts_select_or_with (strip sql) \<Longrightarrow>
   validate_sql M sql = (if sql = [] then Inl EmptyOutput else Inl NotAReadQuery)"
  using read_query_match_starts [of "strip sql"] by (auto simp add: validate_sql_def Let_def)

theorem validate_sql_not_read_query_witness:
  "\<not> starts_select_or_with (strip ''DROP TABLE x'')
   \<and> validate_sql 2000 ''DROP TABLE x'' = Inl NotAReadQuery"
  using validate_sql_not_read_query [of "''DROP TABLE x''" 2000]
  by (simp add: starts_select_or_with_def strip_def isspace_def lower_char_def char_of_def)

text \<open>
  Claim C5 as stated fails at the empty string: it does not start with \<open>SELECT\<close> or
  \<open>WITH\<close>, and the error is \<open>EmptyOutput\<close>, not \<open>NotAReadQuery\<close>.
\<close>

theorem validate_sql_empty_counterexample:
  "\<not> starts_select_or_with (strip '''')
   \<and> validate_sql 2000 '''' = Inl EmptyOutput
   \<and> validate_sql 2000 '''' \<noteq> Inl NotAReadQuery"
  by (simp add: starts_select_or_with_def validate_sql_def)

subsection \<open>The banned keywords\<close>

text \<open>
  Claim C3, amended. A string that contains a banned keyword as a whole word (in any
  case) is rejected: with \<open>ForbiddenKeyword\<close> when its trimmed text passes the
  read-query check, with \<open>NotAReadQuery\<close> otherwise. The checks run in the order of the
  source and the first failing one gives the error, so \<open>SELECT 1; DROP TABLE x\<close> is
  rejected with \<open>ForbiddenKeyword\<close>: the keyword check comes before the
  single-statement check.
\<close>

theorem validate_sql_banned:
  "(BANNED_search sql \<longrightarrow>
      validate_sql M sql
      = (if read_query_match (strip sql) then Inl ForbiddenKeyword else Inl NotAReadQuery))
   \<and> validate_sql M ''SELECT 1; DROP TABLE x'' = Inl ForbiddenKeyword"
proof (intro conjI impI)
  assume b: "BANNED_search sql"
  have "sql \<noteq> []"
  proof
    assume "sql = []"
    with b show False
      using search_Nil [OF BANNED_words_word, of True None] by (simp add: BANNED_search_def)
  qed
  moreover from b have "BANNED_search (strip sql)" by (simp add: BANNED_search_strip)
  ultimately show "validate_sql M sql
      = (if read_query_match (strip sql) then Inl ForbiddenKeyword else Inl NotAReadQuery)"
    by (simp add: validate_sql_def Let_def)
next
  show "validate_sql M ''SELECT 1; DROP TABLE x'' = Inl ForbiddenKeyword"
    by (simp del: search.simps str_in.simps add: validate_eval)
qed

theorem validate_sql_banned_witness:
  "BANNED_search ''select drop'' \<and> validate_sql 2000 ''select drop'' = Inl ForbiddenKeyword
   \<and> BANNED_search ''Drop x'' \<and> validate_sql 2000 ''Drop x'' = Inl NotAReadQuery"
  using validate_sql_banned [of "''select drop''" 2000] validate_sql_banned [of "''Drop x''" 2000]
  by (simp del: search.simps str_in.simps add: validate_eval)

text \<open>
  Claim C3 as stated fails at its own example: \<open>SELECT 1; DROP TABLE x\<close> is not
  rejected with \<open>MultipleStatements\<close>.
\<close>

theorem validate_sql_banned_counterexample:
  "BANNED_search ''SELECT 1; DROP TABLE x''
   \<and> validate_sql 2000 ''SELECT 1; DROP TABLE x'' \<noteq> Inl MultipleStatements"
  by (simp del: search.simps str_in.simps add: validate_eval)

subsection \<open>The schema check\<close>

lemma startswith_iff: "startswith p s \<longleftrightarrow> (\<exists>b. s = p @ b)"
  unfolding startswith_def by (metis append_eq_conv_conj append_take_drop_id)

lemma str_in_iff: "str_in p s \<longleftrightarrow> (\<exists>a b. s = a @ p @ b)"
proof
  show "str_in p s \<Longrightarrow> \<exists>a b. s = a @ p @ b"
  proof (induction s)
    case Nil
    then show ?case by simp
  next
    case (Cons c cs)
    show ?case
    proof (cases "startswith p (c # cs)")
      case True
      then obtain b where "c # cs = [] @ p @ b" by (auto simp add: startswith_iff)
      then show ?thesis by blast
    next
      case False
      with Cons obtain a b where "cs = a @ p @ b" by auto
      then have "c # cs = (c # a) @ p @ b" by simp
      then show ?thesis by blast
    qed
  qed
next
  assume "\<exists>a b. s = a @ p @ b"
  then obtain a b where "s = a @ p @ b" by blast
  then show "str_in p s"
  proof (induction a arbitrary: s)
    case Nil
    then have s: "s = p @ b" by simp
    show ?case
    proof (cases s)
      case Nil
      with s show ?thesis by simp
    next
      case (Cons c cs)
      have "startswith p s" unfolding startswith_iff using s by blast
      with Cons show ?thesis by simp
    qed
  next
    case (Cons x a)
    then show ?case by simp
  qed
qed

lemma from_clause_str_in: "from_clause lowered \<Longrightarrow> str_in ''from'' lowered"
proof -
  assume "from_clause lowered"
  then obtain w a b where "lowered = a @ (w # ''from '') @ b"
    unfolding from_clause_def str_in_iff by blast
  then have "lowered = (a @ [w]) @ ''from'' @ ('' '' @ b)" by simp
  then show ?thesis unfolding str_in_iff by blast
qed

lemma from_token_append:
  "isspace w \<Longrightarrow> from_token p (a @ w # ''from'' @ rest)"
proof (induction a arbitrary: p)
  case Nil
  have "startswith ''from'' (''from'' @ rest)" unfolding startswith_iff by blast
  with Nil show ?case by simp
next
  case (Cons x a)
  then show ?case by simp
qed

lemma from_clause_from_token: "from_clause lowered \<Longrightarrow> from_token None lowered"
proof -
  assume "from_clause lowered"
  then obtain w a b where l: "lowered = a @ (w # ''from '') @ b"
    and w: "w = CHR '' '' \<or> w = CHR 0x0A \<or> w = CHR 0x09"
    unfolding from_clause_def str_in_iff by blast
  from w have "isspace w" by (auto simp add: isspace_def)
  then have "from_token None (a @ w # ''from'' @ ('' '' @ b))" by (rule from_token_append)
  with l show ?thesis by simp
qed

text \<open>
  What the check does. A string that passes the four checks before it, holds \<open>from\<close>
  between a space, a newline or a tab and a space in its lower-cased trimmed text, and
  does not hold \<open>mart.\<close>, is rejected with \<open>SchemaNotAllowed\<close>, as is
  \<open>SELECT * FROM raw.some_table LIMIT 10\<close>. A string without the token \<open>from\<close> (after
  the start of the text or a white-space character) is never rejected with
  \<open>SchemaNotAllowed\<close>.
\<close>

lemma validate_sql_schema_rejects:
  assumes "validate_sql M sql \<notin> {Inl EmptyOutput, Inl NotAReadQuery, Inl ForbiddenKeyword,
                                   Inl MultipleStatements}"
    and "lower (strip sql) = pre @ w # ''from '' @ post"
    and "w \<in> {CHR '' '', CHR 0x0A, CHR 0x09}"
    and "\<not> str_in ''mart.'' (lower (strip sql))"
  shows "validate_sql M sql = Inl SchemaNotAllowed"
proof -
  from assms(2) have "lower (strip sql) = pre @ (w # ''from '') @ post" by simp
  then have "str_in (w # ''from '') (lower (strip sql))" unfolding str_in_iff by blast
  with assms(3) have "from_clause (lower (strip sql))" unfolding from_clause_def by auto
  with assms(1,4) show ?thesis
    by (auto simp add: validate_sql_def Let_def split: if_splits)
qed

lemma validate_sql_schema_example:
  "validate_sql M ''SELECT * FROM raw.some_table LIMIT 10'' = Inl SchemaNotAllowed"
  by (simp del: search.simps str_in.simps add: validate_eval)

lemma validate_sql_no_from_token:
  assumes "\<not> from_token None (lower (strip sql))"
  shows "validate_sql M sql \<noteq> Inl SchemaNotAllowed"
proof -
  from assms have "\<not> from_clause (lower (strip sql))" using from_clause_from_token by blast
  then show ?thesis
    by (auto simp add: validate_sql_def Let_def split: option.splits prod.splits)
qed

text \<open>
  Claim C4 does not hold of the code. The three substrings that \<open>validate_sql\<close> looks
  for all end in a space, so a \<open>FROM\<close> that is followed by a newline is not seen:
  \<open>SELECT * FROM\<close>, newline, \<open>raw.some_table LIMIT 10\<close> holds the token \<open>from\<close> after a
  white-space character, does not hold \<open>mart.\<close>, and is accepted, not rejected with
  \<open>SchemaNotAllowed\<close>.
\<close>

theorem validate_sql_schema_newline_accepted:
  "from_token None (lower (strip (''SELECT * FROM'' @ CHR 0x0A # ''raw.some_table LIMIT 10'')))
   \<and> \<not> str_in ''mart.'' (lower (strip (''SELECT * FROM'' @ CHR 0x0A # ''raw.some_table LIMIT 10'')))
   \<and> validate_sql 2000 (''SELECT * FROM'' @ CHR 0x0A # ''raw.some_table LIMIT 10'')
       = Inr (''SELECT * FROM'' @ CHR 0x0A # ''raw.some_table LIMIT 10'')"
proof -
  have 1: "lower (strip (''SELECT * FROM'' @ CHR 0x0A # ''raw.some_table LIMIT 10''))
           = ''select * from'' @ CHR 0x0A # ''raw.some_table limit 10''"
    by (simp add: strip_def lower_char_def isspace_def char_of_def bit_Suc_0_iff)
  have 2: "from_token None (''select * from'' @ CHR 0x0A # ''raw.some_table limit 10'')"
    by (simp add: startswith_Nil startswith_Cons_Nil startswith_Cons_Cons isspace_def)
  have 3: "\<not> str_in ''mart.'' (''select * from'' @ CHR 0x0A # ''raw.some_table limit 10'')"
    by (simp del: str_in.simps add: str_in.simps(1) str_in_Cons startswith_Nil
          startswith_Cons_Nil startswith_Cons_Cons)
  have 4: "validate_sql 2000 (''SELECT * FROM'' @ CHR 0x0A # ''raw.some_table LIMIT 10'')
       = Inr (''SELECT * FROM'' @ CHR 0x0A # ''raw.some_table LIMIT 10'')"
    by (simp del: search.simps str_in.simps add: validate_eval)
  show ?thesis unfolding 1 using 2 3 4 by simp
qed

subsection \<open>The LIMIT clause\<close>

text \<open>
  A match of \<open>\\blimit\\s+(\\d+)\\b\<close> at a position is a word \<open>limit\<close> (in any case when
  the case is ignored), a non-empty run of white space and a non-empty run of digits,
  after a non-word character and before one (or at an end of the string).
\<close>

lemma lit_limit: "lit ic ''limit'' x \<longleftrightarrow> (if ic then lower (take 5 x) else take 5 x) = ''limit''"
proof -
  have l5: "length ''limit'' = 5" by simp
  show ?thesis unfolding lit_def l5 ..
qed

lemma limit_word_chars:
  assumes "(if ic then lower w else w) = ''limit''"
  shows "length w = 5" "\<forall>c\<in>set w. isword c" "w \<noteq> []" "\<forall>c\<in>set w. lower_char c \<in> set ''limit''"
proof -
  from assms have "length (if ic then lower w else w) = length ''limit''" by (simp only:)
  then show l: "length w = 5" by (simp split: if_splits)
  then show "w \<noteq> []" by auto
  have lw: "lower w = ''limit''"
  proof (cases ic)
    case True
    with assms show ?thesis by simp
  next
    case False
    with assms have "w = ''limit''" by simp
    then show ?thesis by (simp add: lower_char_def)
  qed
  then have "set (map lower_char w) = set ''limit''" by (simp add: lower_def)
  then have s: "lower_char ` set w = set ''limit''" by (simp only: set_map)
  then show m: "\<forall>c\<in>set w. lower_char c \<in> set ''limit''" by blast
  have "\<forall>k\<in>set ''limit''. isword k" by (simp add: isword_def)
  with m have "\<forall>c\<in>set w. isword (lower_char c)" by blast
  then show "\<forall>c\<in>set w. isword c" by simp
qed

lemma limit_clause_Some_iff:
  "limit_clause ic p x = Some (n, ds) \<longleftrightarrow>
     (\<exists>w ws t. x = w @ ws @ ds @ t \<and> (if ic then lower w else w) = ''limit''
        \<and> ws \<noteq> [] \<and> (\<forall>c\<in>set ws. isspace c) \<and> ds \<noteq> [] \<and> (\<forall>c\<in>set ds. isdigit c)
        \<and> (t = [] \<or> \<not> isword (hd t)) \<and> \<not> is_word_opt p \<and> n = 5 + length ws + length ds)"
  (is "?L \<longleftrightarrow> ?R")
proof
  assume L: ?L
  let ?w = "take 5 x" and ?r1 = "drop 5 x"
  let ?ws = "takeWhile isspace ?r1" and ?r2 = "dropWhile isspace ?r1"
  let ?ds = "takeWhile isdigit ?r2" and ?r3 = "dropWhile isdigit ?r2"
  from L have b: "at_boundary p x" and l: "lit ic ''limit'' x"
    and c: "?ws \<noteq> []" "?ds \<noteq> []" "at_boundary (Some (last ?ds)) ?r3"
    and r: "n = 5 + length ?ws + length ?ds" "ds = ?ds"
    by (auto simp add: limit_clause_def Let_def split: if_splits)
  from l have w: "(if ic then lower ?w else ?w) = ''limit''" by (simp only: lit_limit)
  note wc = limit_word_chars [OF w]
  have x: "x = ?w @ ?ws @ ?ds @ ?r3" by simp
  from wc(2,3) have "isword (hd ?w)" by (simp del: hd_take)
  moreover from wc(3) have "hd x = hd ?w" by (cases x) auto
  moreover from wc(3) have "x \<noteq> []" by auto
  ultimately have "is_word_opt (head_opt x)" by (cases x) auto
  with b have p: "\<not> is_word_opt p" by (simp add: at_boundary_def)
  from c(2) have "last ?ds \<in> set ?ds" by simp
  then have "isdigit (last ?ds)" by (meson set_takeWhileD)
  then have "isword (last ?ds)" by (rule isdigit_isword)
  with c(3) have "\<not> is_word_opt (head_opt ?r3)" by (simp add: at_boundary_def)
  then have t: "?r3 = [] \<or> \<not> isword (hd ?r3)" by (cases ?r3) auto
  have "\<forall>c\<in>set ?ws. isspace c" "\<forall>c\<in>set ?ds. isdigit c" by (auto dest: set_takeWhileD)
  with x w c p t r show ?R by blast
next
  assume ?R
  then obtain w ws t where x: "x = w @ ws @ ds @ t"
    and w: "(if ic then lower w else w) = ''limit''"
    and ws: "ws \<noteq> []" "\<forall>c\<in>set ws. isspace c"
    and ds: "ds \<noteq> []" "\<forall>c\<in>set ds. isdigit c"
    and t: "t = [] \<or> \<not> isword (hd t)" and p: "\<not> is_word_opt p"
    and n: "n = 5 + length ws + length ds"
    by blast
  note wc = limit_word_chars [OF w]
  from wc(1) x have tk: "take 5 x = w" and dr: "drop 5 x = ws @ ds @ t" by simp_all
  from wc(2,3) x have "is_word_opt (head_opt x)" by (cases w) auto
  with p have b: "at_boundary p x" by (simp add: at_boundary_def)
  from w tk have l: "lit ic ''limit'' x" by (simp only: lit_limit)
  from ds have "\<not> isspace (hd (ds @ t))" by (cases ds) (auto dest: isspace_not_isdigit)
  with ws(2) ds(1) have s1: "takeWhile isspace (ws @ ds @ t) = ws \<and> dropWhile isspace (ws @ ds @ t) = ds @ t"
    by (intro run_split) auto
  from t have "t = [] \<or> \<not> isdigit (hd t)" using isdigit_isword by blast
  with ds(2) have s2: "takeWhile isdigit (ds @ t) = ds \<and> dropWhile isdigit (ds @ t) = t"
    by (intro run_split) auto
  from ds have "isword (last ds)" by (simp add: isdigit_isword)
  with t have b2: "at_boundary (Some (last ds)) t" by (cases t) (auto simp add: at_boundary_def)
  show ?L
    unfolding limit_clause_def Let_def dr using b l s1 s2 ws(1) ds(1) b2 n by simp
qed

lemma limit_clause_lower: "limit_clause False p (lower x) = limit_clause True p x"
proof -
  have 1: "lit False ''limit'' (lower y) = lit True ''limit'' y" for y
    by (simp add: lit_limit lower_take_drop)
  have 2: "drop 5 (lower y) = lower (drop 5 y)" for y
    by (simp add: lower_take_drop)
  have 3: "takeWhile isdigit (lower y) = takeWhile isdigit y" for y
    by (induction y) (auto simp add: isdigit_lower_char_id)
  have 4: "at_boundary q (lower y) = at_boundary q y" for q y
    by (cases y) (simp_all add: at_boundary_def)
  show ?thesis
    unfolding limit_clause_def Let_def 1 2 takeWhile_isspace_lower 3 takeWhile_isdigit_lower(2) 4
    by simp
qed

lemma limit_clauseE:
  assumes "limit_clause ic p x = Some m"
  obtains w ws ds t where "m = (5 + length ws + length ds, ds)" "x = w @ ws @ ds @ t"
    "(if ic then lower w else w) = ''limit''" "ws \<noteq> []" "\<forall>c\<in>set ws. isspace c"
    "ds \<noteq> []" "\<forall>c\<in>set ds. isdigit c" "t = [] \<or> \<not> isword (hd t)" "\<not> is_word_opt p"
proof -
  obtain n ds where m: "m = (n, ds)" by (cases m)
  with assms have "limit_clause ic p x = Some (n, ds)" by simp
  then have "\<exists>w ws t. x = w @ ws @ ds @ t \<and> (if ic then lower w else w) = ''limit''
        \<and> ws \<noteq> [] \<and> (\<forall>c\<in>set ws. isspace c) \<and> ds \<noteq> [] \<and> (\<forall>c\<in>set ds. isdigit c)
        \<and> (t = [] \<or> \<not> isword (hd t)) \<and> \<not> is_word_opt p \<and> n = 5 + length ws + length ds"
    by (simp only: limit_clause_Some_iff)
  then obtain w ws t where "x = w @ ws @ ds @ t" "(if ic then lower w else w) = ''limit''"
    "ws \<noteq> []" "\<forall>c\<in>set ws. isspace c" "ds \<noteq> []" "\<forall>c\<in>set ds. isdigit c"
    "t = [] \<or> \<not> isword (hd t)" "\<not> is_word_opt p" "n = 5 + length ws + length ds"
    by (elim exE conjE)
  with m that show thesis by simp
qed

lemma limit_clause_None_word_prev: "is_word_opt p \<Longrightarrow> limit_clause ic p x = None"
proof (cases "limit_clause ic p x")
  case (Some m)
  assume "is_word_opt p"
  with Some show ?thesis by (elim limit_clauseE) simp
qed simp

lemma limit_clause_None_nonword: "x = [] \<or> \<not> isword (hd x) \<Longrightarrow> limit_clause ic p x = None"
proof (cases "limit_clause ic p x")
  case (Some m)
  assume a: "x = [] \<or> \<not> isword (hd x)"
  from Some obtain w ws ds t where x: "x = w @ ws @ ds @ t"
    and w: "(if ic then lower w else w) = ''limit''"
    by (rule limit_clauseE)
  note wc = limit_word_chars [OF w]
  from wc(2,3) x have "x \<noteq> [] \<and> isword (hd x)" by (cases w) simp_all
  with a show ?thesis by blast
qed simp

lemma limit_clause_run:
  assumes "limit_clause ic p x = Some m"
  shows "(if ic then lower (takeWhile isword x) else takeWhile isword x) = ''limit''"
proof -
  from assms obtain w ws ds t where x: "x = w @ ws @ ds @ t"
    and w: "(if ic then lower w else w) = ''limit''" and ws: "ws \<noteq> []" "\<forall>c\<in>set ws. isspace c"
    by (rule limit_clauseE)
  note wc = limit_word_chars [OF w]
  from ws have "\<not> isword (hd (ws @ ds @ t))" by (cases ws) (simp_all add: isspace_not_isword)
  with wc(2) have "takeWhile isword (w @ ws @ ds @ t) = w"
    using run_split [of w isword "ws @ ds @ t"] by blast
  with x have "takeWhile isword x = w" by simp
  with w show ?thesis by (simp only:)
qed

subsection \<open>The rewriting of the LIMIT clauses\<close>

lemma re_sub_copy:
  "limit_clause True p (c # cs) = None \<Longrightarrow>
   re_sub_limit repl p (c # cs) = c # re_sub_limit repl (Some c) cs"
  by simp

lemma re_sub_clause:
  assumes w: "lower w = ''limit''" and ws: "ws \<noteq> []" "\<forall>c\<in>set ws. isspace c"
    and ds: "ds \<noteq> []" "\<forall>c\<in>set ds. isdigit c"
    and t: "t = [] \<or> \<not> isword (hd t)" and p: "\<not> is_word_opt p"
  shows "re_sub_limit repl p (w @ ws @ ds @ t) = repl @ re_sub_limit repl (Some (last ds)) t"
proof -
  let ?x = "w @ ws @ ds @ t" and ?n = "5 + length ws + length ds"
  from w have w': "(if True then lower w else w) = ''limit''" by simp
  note wc = limit_word_chars [OF w']
  have m: "limit_clause True p ?x = Some (?n, ds)"
    unfolding limit_clause_Some_iff using w' ws ds t p by blast
  from wc(3) obtain c cs where x: "?x = c # cs" by (cases w) auto
  have d: "drop ?n ?x = t" using wc(1) by simp
  have "?x ! (?n - 1) = (w @ ws @ ds) ! (length (w @ ws @ ds) - 1)"
    using wc(1) ds(1) by (simp add: nth_append)
  also have "\<dots> = last (w @ ws @ ds)" using ds(1) by (simp add: last_conv_nth)
  also have "\<dots> = last ds" using ds(1) by simp
  finally have l: "?x ! (?n - 1) = last ds" .
  have "re_sub_limit repl p (c # cs)
        = repl @ re_sub_limit repl (Some ((c # cs) ! (?n - 1))) (drop ?n (c # cs))"
    using m unfolding x by simp
  then show ?thesis unfolding x [symmetric] l d .
qed

lemma re_sub_induct [case_names Nil Clause Copy]:
  assumes "\<And>p. P p []"
    and "\<And>p w ws ds t. lower w = ''limit'' \<Longrightarrow> ws \<noteq> [] \<Longrightarrow> \<forall>c\<in>set ws. isspace c \<Longrightarrow>
           ds \<noteq> [] \<Longrightarrow> \<forall>c\<in>set ds. isdigit c \<Longrightarrow> t = [] \<or> \<not> isword (hd t) \<Longrightarrow>
           \<not> is_word_opt p \<Longrightarrow> P (Some (last ds)) t \<Longrightarrow> P p (w @ ws @ ds @ t)"
    and "\<And>p c cs. limit_clause True p (c # cs) = None \<Longrightarrow> P (Some c) cs \<Longrightarrow> P p (c # cs)"
  shows "P p x"
proof (induction "length x" arbitrary: x p rule: less_induct)
  case less
  show ?case
  proof (cases x)
    case Nil
    then show ?thesis using assms(1) by simp
  next
    case (Cons c cs)
    show ?thesis
    proof (cases "limit_clause True p x")
      case None
      with Cons less [of cs "Some c"] assms(3) [of p c cs] show ?thesis by simp
    next
      case (Some m)
      then obtain w ws ds t where x: "x = w @ ws @ ds @ t"
        and c: "(if True then lower w else w) = ''limit''" "ws \<noteq> []" "\<forall>c\<in>set ws. isspace c"
          "ds \<noteq> []" "\<forall>c\<in>set ds. isdigit c" "t = [] \<or> \<not> isword (hd t)" "\<not> is_word_opt p"
        by (rule limit_clauseE)
      from c(1) have w: "lower w = ''limit''" by simp
      from x c(2) have "length t < length x" by simp
      then have "P (Some (last ds)) t" by (rule less)
      with assms(2) [OF w c(2-7)] x show ?thesis by simp
    qed
  qed
qed

lemma re_sub_Nil_iff: "repl \<noteq> [] \<Longrightarrow> re_sub_limit repl p x = [] \<longleftrightarrow> x = []"
  by (cases x) (auto split: option.splits)

lemma re_sub_nonword_head:
  "t = [] \<or> \<not> isword (hd t) \<Longrightarrow>
   re_sub_limit repl p t = [] \<or> \<not> isword (hd (re_sub_limit repl p t))"
  by (cases t) (auto simp add: limit_clause_None_nonword)

lemma takeWhile_isword_re_sub_in_word:
  "is_word_opt p \<Longrightarrow> takeWhile isword (re_sub_limit repl p x) = takeWhile isword x"
proof (induction x arbitrary: p)
  case Nil
  then show ?case by simp
next
  case (Cons c cs)
  then have "limit_clause True p (c # cs) = None" by (simp add: limit_clause_None_word_prev)
  with Cons.IH [of "Some c"] show ?case by simp
qed

lemma takeWhile_isword_re_sub:
  "limit_clause True p x = None \<Longrightarrow>
   takeWhile isword (re_sub_limit repl p x) = takeWhile isword x"
  by (cases x) (simp_all add: takeWhile_isword_re_sub_in_word)

subsection \<open>Keywords survive the rewriting\<close>

lemma search_in_word:
  assumes kws: "\<forall>kw\<in>set kws. kw \<noteq> [] \<and> (\<forall>k\<in>set kw. isword k)"
    and "is_word_opt p" "\<forall>c\<in>set w. isword c"
  shows "search (word_at ic kws) p (w @ t) = search (word_at ic kws) p t"
  using assms(2,3)
proof (induction w arbitrary: p)
  case Nil
  then show ?case by simp
next
  case (Cons c w)
  then have "\<not> word_at ic kws p (c # w @ t)" by (simp add: word_at_run [OF kws])
  moreover from Cons have "search (word_at ic kws) (Some c) (w @ t) = search (word_at ic kws) (Some c) t"
    by simp
  moreover from Cons have "search (word_at ic kws) (Some c) t = search (word_at ic kws) p t"
    by (intro search_prev_cong) simp
  ultimately show ?case by simp
qed

lemma search_word:
  assumes kws: "\<forall>kw\<in>set kws. kw \<noteq> [] \<and> (\<forall>k\<in>set kw. isword k)"
    and p: "\<not> is_word_opt p" and w: "w \<noteq> []" "\<forall>c\<in>set w. isword c"
    and t: "t = [] \<or> \<not> isword (hd t)"
  shows "search (word_at ic kws) p (w @ t)
         \<longleftrightarrow> (if ic then lower w else w) \<in> set kws \<or> search (word_at ic kws) (Some (last w)) t"
proof -
  from w obtain c w' where cw: "w = c # w'" by (cases w) auto
  from w(2) t have r: "takeWhile isword (w @ t) = w" using run_split by blast
  have 1: "word_at ic kws p (w @ t) \<longleftrightarrow> (if ic then lower w else w) \<in> set kws"
    unfolding word_at_run [OF kws] r using p by simp
  have iw: "isword c" "\<forall>c\<in>set w'. isword c" "isword (last w)" using w cw by auto
  have "search (word_at ic kws) (Some c) (w' @ t) = search (word_at ic kws) (Some c) t"
    by (rule search_in_word [OF kws]) (simp_all add: iw)
  also have "\<dots> = search (word_at ic kws) (Some (last w)) t"
    by (rule search_prev_cong) (simp add: iw)
  finally show ?thesis using 1 unfolding cw by simp
qed

lemma search_gap:
  assumes kws: "\<forall>kw\<in>set kws. kw \<noteq> [] \<and> (\<forall>k\<in>set kw. isword k)"
    and g: "g \<noteq> []" "\<forall>c\<in>set g. \<not> isword c"
  shows "search (word_at ic kws) p (g @ t) = search (word_at ic kws) None t"
  using g
proof (induction g arbitrary: p)
  case Nil
  then show ?case by simp
next
  case (Cons c g)
  show ?case
  proof (cases "g = []")
    case True
    with Cons.prems show ?thesis by (simp add: search_nonword_Cons [OF kws] del: search.simps)
  next
    case False
    with Cons have "search (word_at ic kws) None (g @ t) = search (word_at ic kws) None t"
      by simp
    with Cons.prems show ?thesis by (simp add: search_nonword_Cons [OF kws] del: search.simps)
  qed
qed

text \<open>
  A string of the shape word, gap, word, followed by a non-word character or by the end:
  both a matched clause and its replacement have it.
\<close>

lemma search_word_gap_word:
  assumes kws: "\<forall>kw\<in>set kws. kw \<noteq> [] \<and> (\<forall>k\<in>set kw. isword k)"
    and p: "\<not> is_word_opt p"
    and w1: "w1 \<noteq> []" "\<forall>c\<in>set w1. isword c"
    and g: "g \<noteq> []" "\<forall>c\<in>set g. \<not> isword c"
    and w2: "w2 \<noteq> []" "\<forall>c\<in>set w2. isword c"
    and t: "t = [] \<or> \<not> isword (hd t)"
  shows "search (word_at ic kws) p (w1 @ g @ w2 @ t)
         \<longleftrightarrow> (if ic then lower w1 else w1) \<in> set kws \<or> (if ic then lower w2 else w2) \<in> set kws
             \<or> search (word_at ic kws) (Some (last w2)) t"
proof -
  from g have "\<not> isword (hd (g @ w2 @ t))" by (cases g) auto
  then have "search (word_at ic kws) p (w1 @ g @ w2 @ t)
      \<longleftrightarrow> (if ic then lower w1 else w1) \<in> set kws
          \<or> search (word_at ic kws) (Some (last w1)) (g @ w2 @ t)"
    by (intro search_word [OF kws p w1]) simp
  also have "search (word_at ic kws) (Some (last w1)) (g @ w2 @ t)
      = search (word_at ic kws) None (w2 @ t)"
    by (rule search_gap [OF kws g])
  also have "search (word_at ic kws) None (w2 @ t)
      \<longleftrightarrow> (if ic then lower w2 else w2) \<in> set kws \<or> search (word_at ic kws) (Some (last w2)) t"
    by (intro search_word [OF kws _ w2 t]) simp
  finally show ?thesis by blast
qed

subsection \<open>The replacement text\<close>

lemma digit_char_props:
  assumes "d < 10"
  shows "isdigit (digit_char d)" "digit_val (digit_char d) = d"
proof -
  from assms have "d = 0 \<or> d = 1 \<or> d = 2 \<or> d = 3 \<or> d = 4 \<or> d = 5 \<or> d = 6 \<or> d = 7 \<or> d = 8 \<or> d = 9"
    by arith
  then show "isdigit (digit_char d)" "digit_val (digit_char d) = d"
    by (auto simp add: digit_char_def isdigit_def digit_val_def)
qed

lemma digits_value_snoc: "digits_value (ds @ [c]) = 10 * digits_value ds + digit_val c"
  by (simp add: digits_value_def)

lemma str_nat_props:
  "str_nat n \<noteq> [] \<and> (\<forall>c\<in>set (str_nat n). isdigit c) \<and> digits_value (str_nat n) = n"
proof (induction n rule: str_nat.induct)
  case (1 n)
  show ?case
  proof (cases "n < 10")
    case True
    then have "str_nat n = [digit_char n]" by (subst str_nat.simps) simp
    with True show ?thesis by (simp add: digit_char_props digits_value_def)
  next
    case False
    then have s: "str_nat n = str_nat (n div 10) @ [digit_char (n mod 10)]"
      by (subst str_nat.simps) simp
    have "n mod 10 < 10" by simp
    note d = digit_char_props [OF this]
    from False 1 have ih: "str_nat (n div 10) \<noteq> []" "\<forall>c\<in>set (str_nat (n div 10)). isdigit c"
      "digits_value (str_nat (n div 10)) = n div 10"
      by simp_all
    show ?thesis unfolding s using d ih by (simp add: digits_value_snoc)
  qed
qed

text \<open>
  \<open>f"LIMIT {MAX_ROWS}"\<close> is the word \<open>LIMIT\<close>, a gap (a space, and a minus sign for a
  negative cap) and a run of digits.
\<close>

lemma repl_shape:
  obtains g dg where "''LIMIT '' @ str_int M = ''LIMIT'' @ g @ dg"
    "g = '' '' \<or> g = '' -''" "dg \<noteq> []" "\<forall>c\<in>set dg. isdigit c"
    "0 \<le> M \<longrightarrow> g = '' '' \<and> int (digits_value dg) = M" "M < 0 \<longrightarrow> g = '' -''"
proof (cases "M < 0")
  case True
  then have "''LIMIT '' @ str_int M = ''LIMIT'' @ '' -'' @ str_nat (nat (- M))"
    by (simp add: str_int_def)
  with True that [of "'' -''" "str_nat (nat (- M))"] str_nat_props [of "nat (- M)"]
  show thesis by simp
next
  case False
  then have "''LIMIT '' @ str_int M = ''LIMIT'' @ '' '' @ str_nat (nat M)"
    by (simp add: str_int_def)
  with False that [of "'' ''" "str_nat (nat M)"] str_nat_props [of "nat M"]
  show thesis by simp
qed

lemma gap_nonword: "g = '' '' \<or> g = '' -'' \<Longrightarrow> g \<noteq> [] \<and> (\<forall>c\<in>set g. \<not> isword c)"
  by (auto simp add: isword_def)

lemma digits_word: "\<forall>c\<in>set ds. isdigit c \<Longrightarrow> \<forall>c\<in>set ds. isword c"
  using isdigit_isword by blast

lemma spaces_nonword: "\<forall>c\<in>set ws. isspace c \<Longrightarrow> \<forall>c\<in>set ws. \<not> isword c"
  using isspace_not_isword by blast

lemma LIMIT_word: "''LIMIT'' \<noteq> [] \<and> (\<forall>c\<in>set ''LIMIT''. isword c) \<and> lower ''LIMIT'' = ''limit''"
  by (simp add: isword_def lower_char_def char_of_def bit_Suc_0_iff)

lemma search_re_sub:
  assumes kws: "\<forall>kw\<in>set kws. kw \<noteq> [] \<and> (\<forall>k\<in>set kw. isword k)"
    and nd: "\<forall>kw\<in>set kws. \<not> (\<forall>k\<in>set kw. isdigit k)"
  shows "is_word_opt p' = is_word_opt p \<Longrightarrow>
         search (word_at True kws) p' (re_sub_limit (''LIMIT '' @ str_int M) p x)
         = search (word_at True kws) p x"
proof (induction p x arbitrary: p' rule: re_sub_induct)
  case (Nil p)
  then show ?case using search_Nil [OF kws] by simp
next
  case (Clause p w ws ds t)
  let ?R = "re_sub_limit (''LIMIT '' @ str_int M)"
  let ?y = "?R (Some (last ds)) t"
  obtain g dg where r: "''LIMIT '' @ str_int M = ''LIMIT'' @ g @ dg"
    and g: "g = '' '' \<or> g = '' -''" and dg: "dg \<noteq> []" "\<forall>c\<in>set dg. isdigit c"
    by (rule repl_shape)
  note gn = gap_nonword [OF g]
  from Clause.hyps(1) have w': "(if True then lower w else w) = ''limit''" by simp
  note wc = limit_word_chars [OF w']
  have y: "?y = [] \<or> \<not> isword (hd ?y)" using Clause.hyps(6) by (rule re_sub_nonword_head)
  from Clause.prems Clause.hyps(7) have p': "\<not> is_word_opt p'" by simp
  have ndg: "dg \<notin> set kws" "ds \<notin> set kws" using nd dg(2) Clause.hyps(5) by blast+
  have "?R p (w @ ws @ ds @ t) = ''LIMIT'' @ g @ dg @ ?y"
    using re_sub_clause [OF Clause.hyps(1-7), of "''LIMIT '' @ str_int M"] r by simp
  then have "search (word_at True kws) p' (?R p (w @ ws @ ds @ t))
      \<longleftrightarrow> search (word_at True kws) p' (''LIMIT'' @ g @ dg @ ?y)" by simp
  also have "\<dots> \<longleftrightarrow> lower ''LIMIT'' \<in> set kws \<or> lower dg \<in> set kws
      \<or> search (word_at True kws) (Some (last dg)) ?y"
    using search_word_gap_word [OF kws p' _ _ _ _ dg(1) digits_word [OF dg(2)] y,
        of "''LIMIT''" g True] LIMIT_word gn
    by simp
  also have "search (word_at True kws) (Some (last dg)) ?y
      = search (word_at True kws) (Some (last ds)) t"
    using dg Clause.hyps(4,5) by (intro Clause.IH) (simp add: isdigit_isword)
  also have "lower dg = dg" using dg(2) by (rule lower_digits)
  finally have L: "search (word_at True kws) p' (?R p (w @ ws @ ds @ t))
      \<longleftrightarrow> ''limit'' \<in> set kws \<or> search (word_at True kws) (Some (last ds)) t"
    using ndg LIMIT_word by simp
  have "search (word_at True kws) p (w @ ws @ ds @ t)
      \<longleftrightarrow> lower w \<in> set kws \<or> lower ds \<in> set kws
          \<or> search (word_at True kws) (Some (last ds)) t"
    using search_word_gap_word [OF kws Clause.hyps(7) wc(3,2) Clause.hyps(2)
        spaces_nonword [OF Clause.hyps(3)] Clause.hyps(4) digits_word [OF Clause.hyps(5)]
        Clause.hyps(6), of True]
    by simp
  also have "lower ds = ds" using Clause.hyps(5) by (rule lower_digits)
  finally show ?case using L ndg Clause.hyps(1) by simp
next
  case (Copy p c cs)
  let ?R = "re_sub_limit (''LIMIT '' @ str_int M)"
  have "takeWhile isword (?R p (c # cs)) = takeWhile isword (c # cs)"
    using Copy.hyps by (rule takeWhile_isword_re_sub)
  then have "word_at True kws p' (?R p (c # cs)) = word_at True kws p (c # cs)"
    unfolding word_at_run [OF kws] using Copy.prems by simp
  moreover have "search (word_at True kws) (Some c) (?R (Some c) cs)
      = search (word_at True kws) (Some c) cs"
    by (rule Copy.IH) simp
  ultimately show ?case using Copy.hyps by simp
qed

lemma search_lower:
  assumes kws: "\<forall>kw\<in>set kws. kw \<noteq> [] \<and> (\<forall>k\<in>set kw. isword k)"
  shows "search (word_at False kws) p (lower x) = search (word_at True kws) p x"
proof (induction x arbitrary: p)
  case Nil
  then show ?case using search_Nil [OF kws] by simp
next
  case (Cons c cs)
  have "word_at False kws p (lower (c # cs)) = word_at True kws p (c # cs)"
    unfolding word_at_run [OF kws] by (simp add: takeWhile_isword_lower)
  with Cons [of "Some (lower_char c)"] show ?case
    using search_prev_cong [of "Some (lower_char c)" "Some c" True kws cs] by simp
qed

lemma BANNED_words_nodigits: "\<forall>kw\<in>set BANNED_words. \<not> (\<forall>k\<in>set kw. isdigit k)"
  by (simp add: BANNED_words_def isdigit_def)

lemma BANNED_search_re_sub:
  "BANNED_search (re_sub_limit (''LIMIT '' @ str_int M) None s) = BANNED_search s"
  unfolding BANNED_search_def
  by (rule search_re_sub [OF BANNED_words_word BANNED_words_nodigits]) simp

lemma limit_word_search_re_sub:
  "limit_word_search (lower (re_sub_limit (''LIMIT '' @ str_int M) None s))
   = limit_word_search (lower s)"
proof -
  have nd: "\<forall>kw\<in>set [''limit'']. \<not> (\<forall>k\<in>set kw. isdigit k)" by (simp add: isdigit_def)
  show ?thesis
    unfolding limit_word_search_def search_lower [OF limit_word]
    by (rule search_re_sub [OF limit_word nd]) simp
qed

lemma read_query_match_re_sub:
  assumes "read_query_match s"
  shows "read_query_match (re_sub_limit (''LIMIT '' @ str_int M) None s)"
proof -
  from assms have r: "lower (takeWhile isword s) \<in> set [''select'', ''with'']"
    unfolding read_query_match_def alt_word_run [OF select_with_word] by simp
  have "limit_clause True None s = None"
  proof (cases "limit_clause True None s")
    case (Some m)
    then have "lower (takeWhile isword s) = ''limit''" using limit_clause_run [of True None s m] by simp
    with r show ?thesis by simp
  qed simp
  then have "takeWhile isword (re_sub_limit (''LIMIT '' @ str_int M) None s) = takeWhile isword s"
    by (rule takeWhile_isword_re_sub)
  with r show ?thesis unfolding read_query_match_def alt_word_run [OF select_with_word] by simp
qed

subsection \<open>Substrings survive the rewriting\<close>

text \<open>
  Neither a matched clause nor its replacement holds the second character of
  \<open>" from "\<close> or of \<open>"mart."\<close>, and none of the patterns holds the letter \<open>l\<close> with
  which both start: an occurrence of a pattern lies outside the clauses.
\<close>

lemma lower_nonword: "\<forall>c\<in>set g. \<not> isword c \<Longrightarrow> lower g = g"
  by (induction g) (auto simp add: not_isword_lower_char_id)

lemma lower_spaces: "\<forall>c\<in>set ws. isspace c \<Longrightarrow> lower ws = ws"
  by (induction ws) (auto simp add: isspace_lower_char_id)

lemma str_in_skip:
  assumes "\<forall>a\<in>set u. a \<noteq> f" and "z = [] \<or> hd z \<noteq> f"
  shows "str_in (q # f # pat) (u @ z) = str_in (q # f # pat) z"
  using assms(1)
proof (induction u)
  case Nil
  then show ?case by simp
next
  case (Cons a u)
  have "u @ z = [] \<or> hd (u @ z) \<noteq> f" using Cons.prems assms(2) by (cases u) auto
  then have "\<not> startswith (f # pat) (u @ z)"
    by (cases "u @ z") (auto simp add: startswith_Cons_Nil startswith_Cons_Cons)
  then have "\<not> startswith (q # f # pat) (a # u @ z)" by (simp add: startswith_Cons_Cons)
  with Cons show ?case by simp
qed

lemma startswith_lower_re_sub:
  "CHR ''l'' \<notin> set pat \<Longrightarrow>
   startswith pat (lower (re_sub_limit (''LIMIT '' @ str_int M) p x)) = startswith pat (lower x)"
proof (induction p x arbitrary: pat rule: re_sub_induct)
  case (Nil p)
  then show ?case by simp
next
  case (Clause p w ws ds t)
  from Clause.hyps(1) have w': "(if True then lower w else w) = ''limit''" by simp
  note wc = limit_word_chars [OF w']
  show ?case
  proof (cases pat)
    case Nil
    then show ?thesis by (simp add: startswith_Nil)
  next
    case (Cons q pat')
    with Clause.prems have q: "q \<noteq> CHR ''l''" by auto
    from wc(3) Clause.hyps(1) have "lower (w @ ws @ ds @ t) = CHR ''l'' # tl (lower (w @ ws @ ds @ t))"
      by (cases w) auto
    then have 1: "\<not> startswith pat (lower (w @ ws @ ds @ t))"
      using q Cons by (metis startswith_Cons_Cons)
    have "lower (re_sub_limit (''LIMIT '' @ str_int M) p (w @ ws @ ds @ t))
        = CHR ''l'' # tl (lower (re_sub_limit (''LIMIT '' @ str_int M) p (w @ ws @ ds @ t)))"
      unfolding re_sub_clause [OF Clause.hyps(1-7)]
      by (simp add: lower_char_def char_of_def bit_Suc_0_iff)
    then have "\<not> startswith pat (lower (re_sub_limit (''LIMIT '' @ str_int M) p (w @ ws @ ds @ t)))"
      using q Cons by (metis startswith_Cons_Cons)
    with 1 show ?thesis by simp
  qed
next
  case (Copy p c cs)
  show ?case
  proof (cases pat)
    case Nil
    then show ?thesis by (simp add: startswith_Nil)
  next
    case (Cons q pat')
    with Copy.prems have "CHR ''l'' \<notin> set pat'" by simp
    then have "startswith pat' (lower (re_sub_limit (''LIMIT '' @ str_int M) (Some c) cs))
        = startswith pat' (lower cs)"
      by (rule Copy.IH)
    with Cons Copy.hyps show ?thesis by (simp add: startswith_Cons_Cons)
  qed
qed

lemma str_in_lower_re_sub:
  assumes l: "CHR ''l'' \<notin> set (q # f # pat)" and f: "isword f" "\<not> isdigit f" "f \<notin> set ''limit''"
  shows "str_in (q # f # pat) (lower (re_sub_limit (''LIMIT '' @ str_int M) p x))
         = str_in (q # f # pat) (lower x)"
proof (induction p x rule: re_sub_induct)
  case (Nil p)
  then show ?case by simp
next
  case (Clause p w ws ds t)
  let ?R = "re_sub_limit (''LIMIT '' @ str_int M)"
  let ?y = "?R (Some (last ds)) t"
  obtain g dg where r: "''LIMIT '' @ str_int M = ''LIMIT'' @ g @ dg"
    and g: "g = '' '' \<or> g = '' -''" and dg: "dg \<noteq> []" "\<forall>c\<in>set dg. isdigit c"
    by (rule repl_shape)
  note gn = gap_nonword [OF g]
  have nf: "z = [] \<or> hd (lower z) \<noteq> f" if "z = [] \<or> \<not> isword (hd z)" for z
    using that f(1) by (cases z) auto
  have y: "?y = [] \<or> \<not> isword (hd ?y)" using Clause.hyps(6) by (rule re_sub_nonword_head)
  have dgl: "lower dg = dg" using dg(2) by (rule lower_digits)
  have gl: "lower g = g" using gn by (intro lower_nonword) simp
  have "\<forall>a\<in>set (''limit'' @ g @ dg). a \<noteq> f" using f gn dg(2) by auto
  moreover have "lower ?y = [] \<or> hd (lower ?y) \<noteq> f" using nf [OF y] by auto
  ultimately have 1: "str_in (q # f # pat) ((''limit'' @ g @ dg) @ lower ?y)
      = str_in (q # f # pat) (lower ?y)"
    by (rule str_in_skip)
  have "lower (?R p (w @ ws @ ds @ t)) = (''limit'' @ g @ dg) @ lower ?y"
    unfolding re_sub_clause [OF Clause.hyps(1-7)] r using LIMIT_word gl dgl by simp
  with 1 Clause.IH have L: "str_in (q # f # pat) (lower (?R p (w @ ws @ ds @ t)))
      = str_in (q # f # pat) (lower t)"
    by simp
  have dsl: "lower ds = ds" using Clause.hyps(5) by (rule lower_digits)
  have wsl: "lower ws = ws" using Clause.hyps(3) by (rule lower_spaces)
  have "\<forall>a\<in>set (''limit'' @ ws @ ds). a \<noteq> f"
    using f Clause.hyps(3,5) isspace_not_isword by auto
  moreover have "lower t = [] \<or> hd (lower t) \<noteq> f" using nf [OF Clause.hyps(6)] by auto
  ultimately have R: "str_in (q # f # pat) ((''limit'' @ ws @ ds) @ lower t)
      = str_in (q # f # pat) (lower t)"
    by (rule str_in_skip)
  have E: "lower (w @ ws @ ds @ t) = (''limit'' @ ws @ ds) @ lower t"
    using Clause.hyps(1) wsl dsl by simp
  show ?case by (simp only: L E R)
next
  case (Copy p c cs)
  let ?R = "re_sub_limit (''LIMIT '' @ str_int M)"
  have "startswith (q # f # pat) (lower (?R p (c # cs))) = startswith (q # f # pat) (lower (c # cs))"
    using l by (rule startswith_lower_re_sub)
  with Copy show ?case by simp
qed

lemma from_clause_re_sub:
  "from_clause (lower (re_sub_limit (''LIMIT '' @ str_int M) p x)) = from_clause (lower x)"
  unfolding from_clause_def
  using str_in_lower_re_sub [of "CHR '' ''" "CHR ''f''" "''rom ''" M p x]
        str_in_lower_re_sub [of "CHR 0x0A" "CHR ''f''" "''rom ''" M p x]
        str_in_lower_re_sub [of "CHR 0x09" "CHR ''f''" "''rom ''" M p x]
  by (simp add: isword_def isdigit_def del: str_in.simps)

lemma mart_re_sub:
  "str_in ''mart.'' (lower (re_sub_limit (''LIMIT '' @ str_int M) p x)) = str_in ''mart.'' (lower x)"
  using str_in_lower_re_sub [of "CHR ''m''" "CHR ''a''" "''rt.''" M p x]
  by (simp add: isword_def isdigit_def del: str_in.simps)

subsection \<open>Trimming and the statement count survive the rewriting\<close>

lemma re_sub_ends:
  "x \<noteq> [] \<Longrightarrow> \<not> isspace (last x) \<Longrightarrow>
   re_sub_limit (''LIMIT '' @ str_int M) p x \<noteq> []
   \<and> \<not> isspace (last (re_sub_limit (''LIMIT '' @ str_int M) p x))"
proof (induction p x rule: re_sub_induct)
  case (Nil p)
  then show ?case by simp
next
  case (Clause p w ws ds t)
  let ?R = "re_sub_limit (''LIMIT '' @ str_int M)"
  let ?y = "?R (Some (last ds)) t"
  obtain g dg where r: "''LIMIT '' @ str_int M = ''LIMIT'' @ g @ dg"
    and dg: "dg \<noteq> []" "\<forall>c\<in>set dg. isdigit c"
    by (rule repl_shape)
  have e: "?R p (w @ ws @ ds @ t) = (''LIMIT'' @ g @ dg) @ ?y"
    unfolding re_sub_clause [OF Clause.hyps(1-7)] r by simp
  show ?case
  proof (cases "t = []")
    case True
    from dg have "isdigit (last dg)" by simp
    then have "\<not> isspace (last dg)" using isspace_not_isdigit by blast
    with True dg(1) show ?thesis unfolding e by simp
  next
    case False
    with Clause.prems have "\<not> isspace (last t)" by simp
    with False Clause.IH have "?y \<noteq> [] \<and> \<not> isspace (last ?y)" by simp
    then show ?thesis unfolding e by simp
  qed
next
  case (Copy p c cs)
  then show ?case by (cases "cs = []") simp_all
qed

lemma read_query_match_no_clause:
  assumes "read_query_match s"
  shows "s \<noteq> []" "limit_clause True None s = None"
proof -
  from assms have r: "lower (takeWhile isword s) \<in> set [''select'', ''with'']"
    unfolding read_query_match_def alt_word_run [OF select_with_word] by simp
  then show "s \<noteq> []" by auto
  show "limit_clause True None s = None"
  proof (cases "limit_clause True None s")
    case (Some m)
    then have "lower (takeWhile isword s) = ''limit''"
      using limit_clause_run [of True None s m] by simp
    with r show ?thesis by simp
  qed simp
qed

lemma strip_re_sub:
  assumes "read_query_match s" and "strip s = s"
  shows "strip (re_sub_limit (''LIMIT '' @ str_int M) None s)
         = re_sub_limit (''LIMIT '' @ str_int M) None s"
proof -
  let ?r = "re_sub_limit (''LIMIT '' @ str_int M) None s"
  note n = read_query_match_no_clause [OF assms(1)]
  from n(1) assms(2) have e: "\<not> isspace (hd s)" "\<not> isspace (last s)"
    using strip_ends [of s] by simp_all
  from n obtain c cs where s: "s = c # cs" by (cases s) auto
  with n(2) have "?r = c # re_sub_limit (''LIMIT '' @ str_int M) (Some c) cs" by simp
  with s e(1) have h: "\<not> isspace (hd ?r)" by simp
  from re_sub_ends [OF n(1) e(2)] h show ?thesis by (intro strip_id) simp
qed

lemma split_on_ne [simp]: "split_on d x \<noteq> []"
  by (induction x) (auto split: list.splits)

lemma split_on_Cons:
  "split_on d (c # cs) =
     (if c = d then [] # split_on d cs else (c # hd (split_on d cs)) # tl (split_on d cs))"
  by (cases "split_on d cs") auto

text \<open>
  For each segment between semicolons, whether it is blank: \<open>_single_statement\<close>
  counts the segments that are not.
\<close>

lemma blank_flags_Cons:
  "map (\<lambda>p. strip p = []) (split_on CHR '';'' (c # cs)) =
     (if c = CHR '';'' then True # map (\<lambda>p. strip p = []) (split_on CHR '';'' cs)
      else (isspace c \<and> hd (map (\<lambda>p. strip p = []) (split_on CHR '';'' cs)))
           # tl (map (\<lambda>p. strip p = []) (split_on CHR '';'' cs)))"
  by (simp add: split_on_Cons strip_eq_Nil_iff hd_map map_tl del: split_on.simps)

lemma blank_flags_append:
  "CHR '';'' \<notin> set u \<Longrightarrow>
   map (\<lambda>p. strip p = []) (split_on CHR '';'' (u @ t)) =
     ((\<forall>c\<in>set u. isspace c) \<and> hd (map (\<lambda>p. strip p = []) (split_on CHR '';'' t)))
     # tl (map (\<lambda>p. strip p = []) (split_on CHR '';'' t))"
proof (induction u)
  case Nil
  show ?case using split_on_ne [of "CHR '';''" t] by (cases "split_on CHR '';'' t") simp_all
next
  case (Cons a u)
  then have "a \<noteq> CHR '';''" "CHR '';'' \<notin> set u" by auto
  with Cons.IH show ?case by (simp add: blank_flags_Cons del: split_on.simps)
qed

lemma not_semicolon: "isword c \<or> isspace c \<or> isdigit c \<Longrightarrow> c \<noteq> CHR '';''"
proof -
  have "\<not> isword CHR '';'' \<and> \<not> isspace CHR '';'' \<and> \<not> isdigit CHR '';''"
    by (simp add: isword_def isspace_def isdigit_def)
  then show "isword c \<or> isspace c \<or> isdigit c \<Longrightarrow> c \<noteq> CHR '';''" by blast
qed

lemma blank_flags_re_sub:
  "map (\<lambda>p. strip p = []) (split_on CHR '';'' (re_sub_limit (''LIMIT '' @ str_int M) p x))
   = map (\<lambda>p. strip p = []) (split_on CHR '';'' x)"
proof (induction p x rule: re_sub_induct)
  case (Nil p)
  then show ?case by simp
next
  case (Clause p w ws ds t)
  let ?R = "re_sub_limit (''LIMIT '' @ str_int M)"
  let ?y = "?R (Some (last ds)) t"
  let ?F = "\<lambda>x. map (\<lambda>p. strip p = []) (split_on CHR '';'' x)"
  obtain g dg where r: "''LIMIT '' @ str_int M = ''LIMIT'' @ g @ dg"
    and g: "g = '' '' \<or> g = '' -''" and dg: "dg \<noteq> []" "\<forall>c\<in>set dg. isdigit c"
    by (rule repl_shape)
  from Clause.hyps(1) have w': "(if True then lower w else w) = ''limit''" by simp
  note wc = limit_word_chars [OF w']
  have e: "?R p (w @ ws @ ds @ t) = (''LIMIT'' @ g @ dg) @ ?y"
    unfolding re_sub_clause [OF Clause.hyps(1-7)] r by simp
  have sc: "\<And>c. isdigit c \<Longrightarrow> c \<noteq> CHR '';''" "\<And>c. isspace c \<Longrightarrow> c \<noteq> CHR '';''"
    "\<And>c. isword c \<Longrightarrow> c \<noteq> CHR '';''"
    using not_semicolon by blast+
  have "CHR '';'' \<notin> set dg" using dg(2) sc(1) by blast
  moreover have "CHR '';'' \<notin> set g" using g by auto
  ultimately have a1: "CHR '';'' \<notin> set (''LIMIT'' @ g @ dg)" by simp
  have "\<not> isspace CHR ''L''" by (simp add: isspace_def)
  then have b1: "(\<forall>c\<in>set (''LIMIT'' @ g @ dg). isspace c) = False" by simp
  have 1: "?F ((''LIMIT'' @ g @ dg) @ ?y) = False # tl (?F ?y)"
    unfolding blank_flags_append [OF a1] b1 by (simp only: simp_thms)
  have "CHR '';'' \<notin> set w" using wc(2) sc(3) by blast
  moreover have "CHR '';'' \<notin> set ws" using Clause.hyps(3) sc(2) by blast
  moreover have "CHR '';'' \<notin> set ds" using Clause.hyps(5) sc(1) by blast
  ultimately have a2: "CHR '';'' \<notin> set (w @ ws @ ds)" by simp
  from wc(3) have hw: "hd w \<in> set w" by simp
  with wc(2) have "isword (hd w)" by blast
  then have "\<not> isspace (hd w)" using isspace_not_isword by blast
  with hw have b2: "(\<forall>c\<in>set (w @ ws @ ds). isspace c) = False" by auto
  have 2: "?F ((w @ ws @ ds) @ t) = False # tl (?F t)"
    unfolding blank_flags_append [OF a2] b2 by (simp only: simp_thms)
  have "?F (?R p (w @ ws @ ds @ t)) = False # tl (?F ?y)" unfolding e by (rule 1)
  also have "?F ?y = ?F t" by (rule Clause.IH)
  also have "False # tl (?F t) = ?F ((w @ ws @ ds) @ t)" by (rule 2 [symmetric])
  finally show ?case by (simp only: append_assoc)
next
  case (Copy p c cs)
  have e: "re_sub_limit (''LIMIT '' @ str_int M) p (c # cs)
      = c # re_sub_limit (''LIMIT '' @ str_int M) (Some c) cs"
    using Copy.hyps by (rule re_sub_copy)
  show ?case unfolding e blank_flags_Cons Copy.IH ..
qed

lemma single_statement_flags:
  "single_statement x
   = (length (filter Not (map (\<lambda>p. strip p = []) (split_on CHR '';'' (strip x)))) = 1)"
  by (simp add: single_statement_def filter_map comp_def)

lemma single_statement_re_sub:
  assumes "read_query_match s" and "strip s = s"
  shows "single_statement (re_sub_limit (''LIMIT '' @ str_int M) None s) = single_statement s"
  unfolding single_statement_flags strip_re_sub [OF assms] assms(2) blank_flags_re_sub ..

subsection \<open>The first clause of the rewritten string\<close>

lemma limit_clause_prev_cong:
  "is_word_opt p = is_word_opt p' \<Longrightarrow> limit_clause ic p x = limit_clause ic p' x"
  by (simp add: limit_clause_def at_boundary_def)

lemma re_sub_prev_cong:
  "is_word_opt p = is_word_opt p' \<Longrightarrow> re_sub_limit repl p x = re_sub_limit repl p' x"
  using limit_clause_prev_cong [of p p' True x] by (cases x) simp_all

lemma limit_search_prev_cong:
  "is_word_opt p = is_word_opt p' \<Longrightarrow> limit_search p x = limit_search p' x"
  using limit_clause_prev_cong [of p p' False x] by (cases x) simp_all

lemma re_sub_in_word:
  "is_word_opt p \<Longrightarrow>
   re_sub_limit repl p x = takeWhile isword x @ re_sub_limit repl p (dropWhile isword x)"
proof (induction x arbitrary: p)
  case Nil
  then show ?case by simp
next
  case (Cons c cs)
  show ?case
  proof (cases "isword c")
    case True
    from Cons.prems have "limit_clause True p (c # cs) = None"
      by (rule limit_clause_None_word_prev)
    then have "re_sub_limit repl p (c # cs) = c # re_sub_limit repl (Some c) cs" by simp
    also have "re_sub_limit repl (Some c) cs
        = takeWhile isword cs @ re_sub_limit repl (Some c) (dropWhile isword cs)"
      using True by (intro Cons.IH) simp
    also have "re_sub_limit repl (Some c) (dropWhile isword cs)
        = re_sub_limit repl p (dropWhile isword cs)"
      using True Cons.prems by (intro re_sub_prev_cong) simp
    finally show ?thesis using True by simp
  next
    case False
    then show ?thesis by simp
  qed
qed

lemma re_sub_word_run:
  assumes "limit_clause True p x = None" and "x \<noteq> []" and "isword (hd x)"
  shows "re_sub_limit repl p x
         = takeWhile isword x @ re_sub_limit repl (Some (hd x)) (dropWhile isword x)"
proof -
  from assms(2) obtain c cs where x: "x = c # cs" by (cases x) auto
  with assms(3) have c: "isword c" by simp
  from assms(1) x have "re_sub_limit repl p x = c # re_sub_limit repl (Some c) cs" by simp
  also have "re_sub_limit repl (Some c) cs
      = takeWhile isword cs @ re_sub_limit repl (Some c) (dropWhile isword cs)"
    using c by (intro re_sub_in_word) simp
  finally show ?thesis using x c by simp
qed

lemma re_sub_spaces:
  "ws \<noteq> [] \<Longrightarrow> \<forall>c\<in>set ws. isspace c \<Longrightarrow>
   re_sub_limit repl p (ws @ z) = ws @ re_sub_limit repl None z"
proof (induction ws arbitrary: p)
  case Nil
  then show ?case by simp
next
  case (Cons c ws)
  then have c: "\<not> isword c" using isspace_not_isword by simp
  then have n: "limit_clause True p (c # ws @ z) = None"
    by (intro limit_clause_None_nonword) simp
  show ?case
  proof (cases "ws = []")
    case True
    have "re_sub_limit repl (Some c) z = re_sub_limit repl None z"
      using c by (intro re_sub_prev_cong) simp
    with n True show ?thesis by simp
  next
    case False
    with Cons have "re_sub_limit repl (Some c) (ws @ z) = ws @ re_sub_limit repl None z" by simp
    with n show ?thesis by simp
  qed
qed

lemma re_sub_nonspace_head:
  assumes "z = [] \<or> \<not> isspace (hd z)"
  shows "re_sub_limit (''LIMIT '' @ str_int M) p z = []
         \<or> \<not> isspace (hd (re_sub_limit (''LIMIT '' @ str_int M) p z))"
proof (cases z)
  case Nil
  then show ?thesis by simp
next
  case (Cons c cs)
  with assms have "\<not> isspace c" by simp
  moreover have "\<not> isspace CHR ''L''" by (simp add: isspace_def)
  ultimately show ?thesis unfolding Cons by (simp split: option.splits)
qed

lemma re_sub_clause_head:
  assumes "limit_clause True p x = Some m"
  shows "hd (re_sub_limit (''LIMIT '' @ str_int M) p x) = CHR ''L''"
proof -
  from assms have "x \<noteq> []" by (elim limit_clauseE) (auto dest: limit_word_chars(3))
  then obtain c cs where "x = c # cs" by (cases x) auto
  with assms show ?thesis by simp
qed

text \<open>
  Where the original string has no clause at a position that is copied, the rewritten
  string has none there either: a clause there would consist of a word, white space and a
  word that the rewriting has copied.
\<close>

lemma takeWhile_ne: "takeWhile P x \<noteq> [] \<Longrightarrow> x \<noteq> [] \<and> P (hd x)"
  by (cases x) (auto split: if_splits)

lemma limit_clause_re_sub_None:
  assumes n: "limit_clause True p x = None" and pp: "is_word_opt p' = is_word_opt p"
  shows "limit_clause True p' (re_sub_limit (''LIMIT '' @ str_int M) p x) = None"
proof (rule ccontr)
  let ?R = "re_sub_limit (''LIMIT '' @ str_int M)"
  assume "limit_clause True p' (?R p x) \<noteq> None"
  then obtain m where "limit_clause True p' (?R p x) = Some m" by auto
  then obtain w ws ds t where rx: "?R p x = w @ ws @ ds @ t"
    and w: "(if True then lower w else w) = ''limit''"
    and ws: "ws \<noteq> []" "\<forall>c\<in>set ws. isspace c"
    and ds: "ds \<noteq> []" "\<forall>c\<in>set ds. isdigit c"
    and t: "t = [] \<or> \<not> isword (hd t)" and p': "\<not> is_word_opt p'"
    by (rule limit_clauseE)
  note wc = limit_word_chars [OF w]
  from ws have "\<not> isword (hd (ws @ ds @ t))" using isspace_not_isword by (cases ws) auto
  with wc(2) have "takeWhile isword (w @ ws @ ds @ t) = w"
    using run_split [of w isword "ws @ ds @ t"] by blast
  moreover have "takeWhile isword (?R p x) = takeWhile isword x"
    using n by (rule takeWhile_isword_re_sub)
  ultimately have tw: "takeWhile isword x = w" unfolding rx by (simp only:)
  define x1 where "x1 = dropWhile isword x"
  have x: "x = w @ x1" unfolding x1_def tw [symmetric] by simp
  have x1: "x1 = [] \<or> \<not> isword (hd x1)" unfolding x1_def using hd_dropWhile [of isword x] by blast
  from tw wc(3) have hx: "x \<noteq> []" "isword (hd x)" using takeWhile_ne [of isword x] by simp_all
  have "?R p x = w @ ?R (Some (hd x)) x1"
    using re_sub_word_run [OF n hx, of "''LIMIT '' @ str_int M"] unfolding tw x1_def .
  with rx have r1: "?R (Some (hd x)) x1 = ws @ ds @ t" by (simp only: same_append_eq)
  define ws1 where "ws1 = takeWhile isspace x1"
  define x2 where "x2 = dropWhile isspace x1"
  have x1s: "x1 = ws1 @ x2" unfolding ws1_def x2_def by simp
  have ws1s: "\<forall>c\<in>set ws1. isspace c" unfolding ws1_def by (auto dest: set_takeWhileD)
  have x2h: "x2 = [] \<or> \<not> isspace (hd x2)"
    unfolding x2_def using hd_dropWhile [of isspace x1] by blast
  have ws1: "ws1 \<noteq> []"
  proof
    assume e: "ws1 = []"
    with x1s have e2: "x1 = x2" by simp
    show False
    proof (cases x1)
      case Nil
      with r1 ws(1) show False by simp
    next
      case (Cons c1 cs1)
      with e2 x2h have c1: "\<not> isspace c1" by (metis list.sel(1) list.distinct(1))
      from x1 Cons have "limit_clause True (Some (hd x)) (c1 # cs1) = None"
        by (intro limit_clause_None_nonword) simp
      then have "hd (?R (Some (hd x)) (c1 # cs1)) = c1" by simp
      with r1 Cons have "hd (ws @ ds @ t) = c1" by (simp only:)
      with ws c1 show False by (cases ws) auto
    qed
  qed
  have "?R (Some (hd x)) (ws1 @ x2) = ws1 @ ?R None x2"
    using ws1 ws1s by (rule re_sub_spaces)
  with r1 x1s have r2: "ws1 @ ?R None x2 = ws @ ds @ t" by (simp only:)
  have "?R None x2 = [] \<or> \<not> isspace (hd (?R None x2))"
    using x2h by (rule re_sub_nonspace_head)
  with ws1s have a: "takeWhile isspace (ws1 @ ?R None x2) = ws1
      \<and> dropWhile isspace (ws1 @ ?R None x2) = ?R None x2"
    by (intro run_split)
  from ds have "\<not> isspace (hd (ds @ t))" using isspace_not_isdigit by (cases ds) auto
  with ws(2) have b: "takeWhile isspace (ws @ ds @ t) = ws \<and> dropWhile isspace (ws @ ds @ t) = ds @ t"
    by (intro run_split) auto
  from a b have e1: "ws1 = ws" and r3: "?R None x2 = ds @ t" unfolding r2 by simp_all
  have n2: "limit_clause True None x2 = None"
  proof (cases "limit_clause True None x2")
    case (Some m2)
    then have "hd (?R None x2) = CHR ''L''" by (rule re_sub_clause_head)
    with r3 have "hd (ds @ t) = CHR ''L''" by (simp only:)
    with ds have "isdigit CHR ''L''" by (cases ds) auto
    then show ?thesis by (simp add: isdigit_def)
  qed simp
  from t ds(2) have "takeWhile isword (ds @ t) = ds"
    using run_split [of ds isword t] isdigit_isword by blast
  moreover have "takeWhile isword (?R None x2) = takeWhile isword x2"
    using n2 by (rule takeWhile_isword_re_sub)
  ultimately have tw2: "takeWhile isword x2 = ds" unfolding r3 by (simp only:)
  define x3 where "x3 = dropWhile isword x2"
  have x2s: "x2 = ds @ x3" unfolding x3_def tw2 [symmetric] by simp
  have x3h: "x3 = [] \<or> \<not> isword (hd x3)"
    unfolding x3_def using hd_dropWhile [of isword x2] by blast
  have "x = w @ ws @ ds @ x3" unfolding x x1s e1 x2s ..
  moreover from p' pp have "\<not> is_word_opt p" by simp
  ultimately have "limit_clause True p x = Some (5 + length ws + length ds, ds)"
    unfolding limit_clause_Some_iff using w ws ds x3h by blast
  with n show False by simp
qed

lemma limit_search_head: "limit_clause False p z = Some m \<Longrightarrow> limit_search p z = Some (0, m)"
  by (cases z) simp_all

lemma limit_search_Nil [simp]: "limit_search p [] = None"
  by (simp add: limit_clause_None_nonword)

lemma limit_clause_False_head: "c \<noteq> CHR ''l'' \<Longrightarrow> limit_clause False p (c # cs) = None"
  by (simp add: limit_clause_def lit_Cons_Cons)

lemma limit_search_skip:
  "\<forall>c\<in>set u. c \<noteq> CHR ''l'' \<Longrightarrow> u \<noteq> [] \<Longrightarrow>
   limit_search p (u @ z) = None \<longleftrightarrow> limit_search (Some (last u)) z = None"
proof (induction u arbitrary: p)
  case Nil
  then show ?case by simp
next
  case (Cons c u)
  then have n: "limit_clause False p (c # u @ z) = None" by (simp add: limit_clause_False_head)
  show ?case
  proof (cases "u = []")
    case True
    with n show ?thesis by simp
  next
    case False
    with Cons have "limit_search (Some c) (u @ z) = None \<longleftrightarrow> limit_search (Some (last u)) z = None"
      by simp
    with n False show ?thesis by simp
  qed
qed

text \<open>
  With a cap that is not negative, the first clause of the rewritten string is a
  replacement, and its integer is the cap.
\<close>

lemma limit_search_re_sub_nonneg:
  assumes M: "0 \<le> M"
  shows "limit_search p (lower x) \<noteq> None \<Longrightarrow> is_word_opt p' = is_word_opt p \<Longrightarrow>
         \<exists>i n. limit_search p' (lower (re_sub_limit (''LIMIT '' @ str_int M) p x))
                = Some (i, n, str_nat (nat M))"
proof (induction p x arbitrary: p' rule: re_sub_induct)
  case (Nil p)
  then show ?case by (simp add: limit_clause_None_nonword)
next
  case (Clause p w ws ds t)
  let ?R = "re_sub_limit (''LIMIT '' @ str_int M)"
  let ?y = "?R (Some (last ds)) t"
  let ?dg = "str_nat (nat M)"
  note dg = str_nat_props [of "nat M"]
  from M have r: "''LIMIT '' @ str_int M = ''LIMIT'' @ '' '' @ ?dg" by (simp add: str_int_def)
  have e: "?R p (w @ ws @ ds @ t) = ''LIMIT'' @ '' '' @ ?dg @ ?y"
    unfolding re_sub_clause [OF Clause.hyps(1-7)] r by simp
  have y: "?y = [] \<or> \<not> isword (hd ?y)" using Clause.hyps(6) by (rule re_sub_nonword_head)
  from Clause.prems(2) Clause.hyps(7) have p': "\<not> is_word_opt p'" by simp
  have "limit_clause True p' (''LIMIT'' @ '' '' @ ?dg @ ?y)
      = Some (5 + length '' '' + length ?dg, ?dg)"
    unfolding limit_clause_Some_iff using LIMIT_word dg y p'
    by (intro exI [of _ "''LIMIT''"] exI [of _ "'' ''"] exI [of _ ?y]) (simp add: isspace_def)
  then have "limit_clause False p' (lower (?R p (w @ ws @ ds @ t)))
      = Some (5 + length '' '' + length ?dg, ?dg)"
    unfolding limit_clause_lower e .
  then show ?case using limit_search_head by blast
next
  case (Copy p c cs)
  let ?R = "re_sub_limit (''LIMIT '' @ str_int M)"
  have n: "limit_clause False p (lower (c # cs)) = None"
    unfolding limit_clause_lower by (rule Copy.hyps)
  with Copy.prems(1) have "limit_search (Some (lower_char c)) (lower cs) \<noteq> None" by auto
  then have "limit_search (Some c) (lower cs) \<noteq> None"
    using limit_search_prev_cong [of "Some (lower_char c)" "Some c" "lower cs"] by simp
  then obtain i k where
    ih: "limit_search (Some (lower_char c)) (lower (?R (Some c) cs)) = Some (i, k, str_nat (nat M))"
    using Copy.IH [of "Some (lower_char c)"] by auto
  have e: "?R p (c # cs) = c # ?R (Some c) cs" using Copy.hyps by (rule re_sub_copy)
  have "limit_clause True p' (?R p (c # cs)) = None"
    using Copy.hyps Copy.prems(2) by (rule limit_clause_re_sub_None)
  then have "limit_clause False p' (lower (c # ?R (Some c) cs)) = None"
    unfolding limit_clause_lower e .
  then have "limit_search p' (lower (?R p (c # cs))) = Some (Suc i, k, str_nat (nat M))"
    unfolding e using ih by simp
  then show ?case by blast
qed

text \<open>With a negative cap the rewritten string has no clause left.\<close>

lemma limit_clause_minus: "limit_clause False p (''limit -'' @ z) = None"
  by (simp add: limit_clause_def lit_limit isspace_def isdigit_def)

lemma limit_search_re_sub_neg:
  assumes M: "M < 0"
  shows "is_word_opt p' = is_word_opt p \<Longrightarrow>
         limit_search p' (lower (re_sub_limit (''LIMIT '' @ str_int M) p x)) = None"
proof (induction p x arbitrary: p' rule: re_sub_induct)
  case (Nil p)
  then show ?case by (simp add: limit_clause_None_nonword)
next
  case (Clause p w ws ds t)
  let ?R = "re_sub_limit (''LIMIT '' @ str_int M)"
  let ?y = "?R (Some (last ds)) t"
  let ?dg = "str_nat (nat (- M))"
  note dg = str_nat_props [of "nat (- M)"]
  from M have r: "''LIMIT '' @ str_int M = ''LIMIT -'' @ ?dg" by (simp add: str_int_def)
  have dgl: "lower ?dg = ?dg" using dg by (intro lower_digits) simp
  have "lower (''LIMIT -'') = ''limit -''" by (simp add: lower_char_def char_of_def bit_Suc_0_iff)
  then have e: "lower (?R p (w @ ws @ ds @ t)) = ''limit -'' @ ?dg @ lower ?y"
    unfolding re_sub_clause [OF Clause.hyps(1-7)] r using dgl by simp
  have "limit_search (Some (last ?dg)) (lower ?y) = None"
    using dg Clause.hyps(4,5) by (intro Clause.IH) (simp add: isdigit_isword)
  moreover have "\<forall>c\<in>set (''imit -'' @ ?dg). c \<noteq> CHR ''l''"
    using dg by (auto simp add: isdigit_def)
  ultimately have "limit_search (Some CHR ''l'') ((''imit -'' @ ?dg) @ lower ?y) = None"
    using dg limit_search_skip [of "''imit -'' @ ?dg" "Some CHR ''l''" "lower ?y"] by simp
  moreover have "limit_clause False p' (''limit -'' @ ?dg @ lower ?y) = None"
    by (rule limit_clause_minus)
  ultimately show ?case unfolding e by simp
next
  case (Copy p c cs)
  let ?R = "re_sub_limit (''LIMIT '' @ str_int M)"
  have e: "?R p (c # cs) = c # ?R (Some c) cs" using Copy.hyps by (rule re_sub_copy)
  have "limit_clause True p' (?R p (c # cs)) = None"
    using Copy.hyps Copy.prems by (rule limit_clause_re_sub_None)
  then have "limit_clause False p' (lower (c # ?R (Some c) cs)) = None"
    unfolding limit_clause_lower e .
  moreover have "limit_search (Some (lower_char c)) (lower (?R (Some c) cs)) = None"
    by (rule Copy.IH) simp
  ultimately show ?case unfolding e by simp
qed

subsection \<open>Accepted strings\<close>

text \<open>When \<open>validate_sql\<close> returns a string: the checks it has passed and the result.\<close>

lemma validate_sql_Inr_iff:
  "validate_sql M sql = Inr r \<longleftrightarrow>
     sql \<noteq> [] \<and> read_query_match (strip sql) \<and> \<not> BANNED_search (strip sql)
     \<and> single_statement (strip sql)
     \<and> (from_clause (lower (strip sql)) \<longrightarrow> str_in ''mart.'' (lower (strip sql)))
     \<and> limit_word_search (lower (strip sql))
     \<and> (case limit_search None (lower (strip sql)) of
          None \<Rightarrow> r = strip sql
        | Some (i, n, ds) \<Rightarrow>
            (case int_of_digits ds of
               None \<Rightarrow> False
             | Some lim \<Rightarrow>
                 if int lim > M
                 then (case py_str M of
                         None \<Rightarrow> False
                       | Some t \<Rightarrow> r = re_sub_limit (''LIMIT '' @ t) None (strip sql))
                 else r = strip sql))"
  unfolding validate_sql_def Let_def
  by (simp split: option.splits prod.splits) blast

lemma py_str_Some:
  "py_str M = Some t \<longleftrightarrow> t = str_int M \<and> length (str_nat (nat \<bar>M\<bar>)) \<le> int_max_str_digits"
  by (auto simp add: py_str_def)

lemma validate_sql_trimmed:
  assumes "read_query_match (strip sql)" and "sql \<noteq> []"
  shows "validate_sql M (strip sql) = validate_sql M sql"
proof -
  from assms(1) have "strip sql \<noteq> []" by (rule read_query_match_no_clause(1))
  with assms(2) show ?thesis by (simp add: validate_sql_def)
qed

text \<open>
  The two ways of success: the trimmed text is returned as it is, or every clause
  \<open>LIMIT <integer>\<close> of it is replaced.
\<close>

lemma validate_sql_cases:
  assumes "validate_sql M sql = Inr r"
  obtains (Same) "r = strip sql"
      "case limit_search None (lower (strip sql)) of
         None \<Rightarrow> True
       | Some (i, n, ds) \<Rightarrow> \<exists>lim. int_of_digits ds = Some lim \<and> int lim \<le> M"
  | (Rewritten) i n ds lim where "limit_search None (lower (strip sql)) = Some (i, n, ds)"
      "int_of_digits ds = Some lim" "M < int lim"
      "length (str_nat (nat \<bar>M\<bar>)) \<le> int_max_str_digits"
      "r = re_sub_limit (''LIMIT '' @ str_int M) None (strip sql)"
proof (cases "limit_search None (lower (strip sql))")
  case None
  with assms have "r = strip sql" unfolding validate_sql_Inr_iff by simp
  with None show thesis by (intro Same) simp_all
next
  case (Some m)
  obtain i n ds where m: "m = (i, n, ds)" by (cases m)
  note ls = Some [unfolded m]
  from assms ls obtain lim where lim: "int_of_digits ds = Some lim"
    unfolding validate_sql_Inr_iff by (auto split: option.splits)
  show thesis
  proof (cases "M < int lim")
    case True
    with assms ls lim obtain t where "py_str M = Some t"
      and r: "r = re_sub_limit (''LIMIT '' @ t) None (strip sql)"
      unfolding validate_sql_Inr_iff by (auto split: option.splits)
    then have t: "t = str_int M" and "length (str_nat (nat \<bar>M\<bar>)) \<le> int_max_str_digits"
      unfolding py_str_Some by blast+
    with ls lim True r show thesis by (intro Rewritten) simp_all
  next
    case False
    with assms ls lim have "r = strip sql" unfolding validate_sql_Inr_iff by simp
    with ls lim False show thesis by (intro Same) simp_all
  qed
qed

text \<open>What holds of every returned string.\<close>

lemma validate_sql_result:
  assumes "validate_sql M sql = Inr r"
  shows "strip r = r" and "r \<noteq> []" and "read_query_match r" and "\<not> BANNED_search r"
    and "single_statement r"
    and "from_clause (lower r) \<longrightarrow> str_in ''mart.'' (lower r)"
    and "limit_word_search (lower r)"
    and "case limit_search None (lower r) of
           None \<Rightarrow> True
         | Some (i, n, ds) \<Rightarrow> \<exists>lim. int_of_digits ds = Some lim \<and> int lim \<le> M"
proof -
  let ?s = "strip sql"
  let ?P = "\<lambda>r. case limit_search None (lower r) of
           None \<Rightarrow> True
         | Some (i, n, ds) \<Rightarrow> \<exists>lim. int_of_digits ds = Some lim \<and> int lim \<le> M"
  note a = assms [unfolded validate_sql_Inr_iff]
  from a have sql: "sql \<noteq> []" and rq: "read_query_match ?s" and nb: "\<not> BANNED_search ?s"
    and ss: "single_statement ?s"
    and sc: "from_clause (lower ?s) \<longrightarrow> str_in ''mart.'' (lower ?s)"
    and lw: "limit_word_search (lower ?s)"
    by blast+
  have st: "strip ?s = ?s" by simp
  note ne = read_query_match_no_clause(1) [OF rq]
  have "strip r = r \<and> r \<noteq> [] \<and> read_query_match r \<and> \<not> BANNED_search r
    \<and> single_statement r \<and> (from_clause (lower r) \<longrightarrow> str_in ''mart.'' (lower r))
    \<and> limit_word_search (lower r) \<and> ?P r"
    using assms
  proof (cases rule: validate_sql_cases)
    case Same
    with st ne rq nb ss sc lw show ?thesis by simp
  next
    case (Rewritten i n ds lim)
    let ?R = "re_sub_limit (''LIMIT '' @ str_int M) None"
    note r' = Rewritten(5)
    note ls = Rewritten(1)
    note len = Rewritten(4)
    have 1: "strip r = r" unfolding r' using rq st by (rule strip_re_sub)
    have 2: "r \<noteq> []" unfolding r' using ne by (simp add: re_sub_Nil_iff)
    have 3: "read_query_match r" unfolding r' using rq by (rule read_query_match_re_sub)
    have 4: "\<not> BANNED_search r" unfolding r' BANNED_search_re_sub by (rule nb)
    have 5: "single_statement r" unfolding r' single_statement_re_sub [OF rq st] by (rule ss)
    have 6: "from_clause (lower r) \<longrightarrow> str_in ''mart.'' (lower r)"
      unfolding r' from_clause_re_sub mart_re_sub by (rule sc)
    have 7: "limit_word_search (lower r)" unfolding r' limit_word_search_re_sub by (rule lw)
    have 8: "?P r"
    proof (cases "0 \<le> M")
      case True
      from ls have "limit_search None (lower ?s) \<noteq> None" by simp
      then obtain i' n' where "limit_search None (lower (?R ?s)) = Some (i', n', str_nat (nat M))"
        using limit_search_re_sub_nonneg [OF True, of None ?s None] by auto
      then have l: "limit_search None (lower r) = Some (i', n', str_nat (nat M))"
        unfolding r' .
      from True len have "int_of_digits (str_nat (nat M)) = Some (nat M)"
        using str_nat_props [of "nat M"] by (simp add: int_of_digits_def)
      with True show ?thesis unfolding l by simp
    next
      case False
      then have "limit_search None (lower (?R ?s)) = None"
        by (intro limit_search_re_sub_neg) simp_all
      then have "limit_search None (lower r) = None" unfolding r' .
      then show ?thesis by simp
    qed
    from 1 2 3 4 5 6 7 8 show ?thesis by blast
  qed
  then show "strip r = r" and "r \<noteq> []" and "read_query_match r" and "\<not> BANNED_search r"
    and "single_statement r"
    and "from_clause (lower r) \<longrightarrow> str_in ''mart.'' (lower r)"
    and "limit_word_search (lower r)" and "?P r"
    by blast+
qed

text \<open>
  Claim C9. If \<open>validate_sql\<close> accepts a string and returns \<open>r\<close>, it accepts \<open>r\<close> and
  returns \<open>r\<close>.
\<close>

theorem validate_sql_idempotent:
  assumes "validate_sql M sql = Inr r"
  shows "validate_sql M r = Inr r"
proof -
  note p = validate_sql_result [OF assms]
  from p(8) have "case limit_search None (lower r) of
          None \<Rightarrow> r = r
        | Some (i, n, ds) \<Rightarrow>
            (case int_of_digits ds of
               None \<Rightarrow> False
             | Some lim \<Rightarrow>
                 if int lim > M
                 then (case py_str M of
                         None \<Rightarrow> False
                       | Some t \<Rightarrow> r = re_sub_limit (''LIMIT '' @ t) None r)
                 else r = r)"
    by (auto split: option.splits)
  with p(2-7) show ?thesis unfolding validate_sql_Inr_iff p(1) by blast
qed

theorem validate_sql_idempotent_witness:
  "validate_sql 5 '' select limit 9 limit 3 '' = Inr ''select LIMIT 5 LIMIT 5''
   \<and> validate_sql 5 ''select LIMIT 5 LIMIT 5'' = Inr ''select LIMIT 5 LIMIT 5''"
proof -
  have 1: "validate_sql 5 '' select limit 9 limit 3 '' = Inr ''select LIMIT 5 LIMIT 5''"
    by (simp del: search.simps str_in.simps add: validate_eval)
  from validate_sql_idempotent [OF 1] 1 show ?thesis by simp
qed

subsection \<open>The rewritten string\<close>

text \<open>
  The result of \<open>re.sub\<close> in terms of the match that \<open>re.search\<close> finds: the text before
  the first clause is kept, the clause is replaced, and the rest is rewritten in the
  same way. A text without a clause is not changed.
\<close>

lemma re_sub_first_clause:
  "limit_search p (lower x) = Some (i, n, ds) \<Longrightarrow>
   re_sub_limit repl p x
     = take i x @ repl @ re_sub_limit repl (Some (last ds)) (drop (i + n) x)"
proof (induction x arbitrary: p i)
  case Nil
  then show ?case by (simp add: limit_clause_None_nonword)
next
  case (Cons c cs)
  show ?case
  proof (cases "limit_clause True p (c # cs)")
    case None
    then have "limit_clause False p (lower (c # cs)) = None" by (simp only: limit_clause_lower)
    then have "limit_clause False p (lower_char c # lower cs) = None" by simp
    with Cons.prems obtain j where i: "i = Suc j"
      and "limit_search (Some (lower_char c)) (lower cs) = Some (j, n, ds)"
      by auto
    then have "limit_search (Some c) (lower cs) = Some (j, n, ds)"
      using limit_search_prev_cong [of "Some c" "Some (lower_char c)" "lower cs"] by simp
    then have "re_sub_limit repl (Some c) cs
      = take j cs @ repl @ re_sub_limit repl (Some (last ds)) (drop (j + n) cs)"
      by (rule Cons.IH)
    with None i show ?thesis by (simp del: re_sub_limit.simps add: re_sub_copy)
  next
    case (Some m)
    then have "limit_clause False p (lower (c # cs)) = Some m" by (simp only: limit_clause_lower)
    then have "limit_search p (lower (c # cs)) = Some (0, m)" by (rule limit_search_head)
    with Cons.prems have i: "i = 0" and m: "m = (n, ds)" by simp_all
    from Some obtain w ws ds' t where m': "m = (5 + length ws + length ds', ds')"
      and x: "c # cs = w @ ws @ ds' @ t"
      and w: "(if True then lower w else w) = ''limit''" and ws: "ws \<noteq> []" "\<forall>c\<in>set ws. isspace c"
      and ds: "ds' \<noteq> []" "\<forall>c\<in>set ds'. isdigit c" and t: "t = [] \<or> \<not> isword (hd t)"
      and p: "\<not> is_word_opt p"
      by (rule limit_clauseE)
    from m m' have e: "ds' = ds" by simp
    from m m' have n: "n = 5 + length ws + length ds" by auto
    from w have w': "lower w = ''limit''" by simp
    note wc = limit_word_chars [OF w]
    have d: "drop n (c # cs) = t" unfolding x n e using wc(1) by simp
    have "re_sub_limit repl p (w @ ws @ ds @ t) = repl @ re_sub_limit repl (Some (last ds)) t"
      using w' ws ds [unfolded e] t p by (rule re_sub_clause)
    then have "re_sub_limit repl p (c # cs) = repl @ re_sub_limit repl (Some (last ds)) t"
      unfolding x e .
    with d i show ?thesis by (simp del: re_sub_limit.simps)
  qed
qed

lemma re_sub_no_clause: "limit_search p (lower x) = None \<Longrightarrow> re_sub_limit repl p x = x"
proof (induction x arbitrary: p)
  case Nil
  show ?case by simp
next
  case (Cons c cs)
  have n: "limit_clause False p (lower_char c # lower cs) = None"
  proof (cases "limit_clause False p (lower_char c # lower cs)")
    case (Some m)
    then have "limit_search p (lower_char c # lower cs) = Some (0, m)" by (rule limit_search_head)
    with Cons.prems show ?thesis by simp
  qed simp
  then have 1: "limit_clause True p (c # cs) = None"
    using limit_clause_lower [of p "c # cs"] by simp
  from n Cons.prems have "limit_search (Some (lower_char c)) (lower cs) = None" by simp
  then have "limit_search (Some c) (lower cs) = None"
    using limit_search_prev_cong [of "Some c" "Some (lower_char c)" "lower cs"] by simp
  then have "re_sub_limit repl (Some c) cs = cs" by (rule Cons.IH)
  with 1 show ?case by (simp del: re_sub_limit.simps add: re_sub_copy)
qed

text \<open>
  What \<open>validate_sql\<close> does with the clause \<open>LIMIT <integer>\<close> that \<open>re.search\<close> finds,
  the leftmost one. If its integer is larger than \<open>MAX_ROWS\<close>, the clause is replaced by
  \<open>LIMIT MAX_ROWS\<close>, the text before it is kept and the text after it is rewritten by
  \<open>re.sub\<close>; where the text after it has no further clause, it is kept too. If its
  integer is not larger, or there is no clause, the trimmed text is returned.
\<close>

lemma validate_sql_first_clause:
  assumes "validate_sql M sql = Inr r"
    and "limit_search None (lower (strip sql)) = Some (i, n, ds)"
    and "M < int (digits_value ds)"
  shows "r = take i (strip sql) @ ''LIMIT '' @ str_int M
             @ re_sub_limit (''LIMIT '' @ str_int M) (Some (last ds)) (drop (i + n) (strip sql))"
    and "limit_search (Some (last ds)) (lower (drop (i + n) (strip sql))) = None \<Longrightarrow>
         r = take i (strip sql) @ ''LIMIT '' @ str_int M @ drop (i + n) (strip sql)"
proof -
  let ?repl = "''LIMIT '' @ str_int M"
  from assms(1) have r: "r = re_sub_limit ?repl None (strip sql)"
  proof (cases rule: validate_sql_cases)
    case Same
    with assms(2,3) show ?thesis
      by (auto simp add: int_of_digits_def split: if_splits)
  qed
  have "re_sub_limit ?repl None (strip sql)
    = take i (strip sql) @ ?repl @ re_sub_limit ?repl (Some (last ds)) (drop (i + n) (strip sql))"
    using assms(2) by (rule re_sub_first_clause)
  then show 1: "r = take i (strip sql) @ ''LIMIT '' @ str_int M
             @ re_sub_limit ?repl (Some (last ds)) (drop (i + n) (strip sql))"
    unfolding r by simp
  assume "limit_search (Some (last ds)) (lower (drop (i + n) (strip sql))) = None"
  then have "re_sub_limit ?repl (Some (last ds)) (drop (i + n) (strip sql)) = drop (i + n) (strip sql)"
    by (rule re_sub_no_clause)
  with 1 show "r = take i (strip sql) @ ''LIMIT '' @ str_int M @ drop (i + n) (strip sql)"
    by (simp only:)
qed

lemma validate_sql_within_cap:
  assumes "validate_sql M sql = Inr r"
    and "limit_search None (lower (strip sql)) = None
         \<or> (\<exists>i n ds. limit_search None (lower (strip sql)) = Some (i, n, ds)
               \<and> int (digits_value ds) \<le> M)"
  shows "r = strip sql"
  using assms(1)
proof (cases rule: validate_sql_cases)
  case (Rewritten i n ds lim)
  with assms(2) show ?thesis by (auto simp add: int_of_digits_def split: if_splits)
qed

text \<open>
  The example of the specification: \<open>SELECT * FROM mart.fact_listings LIMIT 100000\<close> is
  returned with \<open>LIMIT MAX_ROWS\<close> when \<open>MAX_ROWS < 100000\<close>, and as it is otherwise.
\<close>

lemma validate_sql_limit_example:
  fixes M :: int
  defines "q \<equiv> ''SELECT * FROM mart.fact_listings LIMIT 100000''"
  shows "M < 100000 \<Longrightarrow> py_str M = Some t \<Longrightarrow>
         validate_sql M q = Inr (''SELECT * FROM mart.fact_listings LIMIT '' @ t)"
    and "100000 \<le> M \<Longrightarrow> validate_sql M q = Inr q"
proof -
  have s: "strip q = q" unfolding q_def by (simp add: strip_def isspace_def)
  have l: "lower q = ''select * from mart.fact_listings limit 100000''"
    unfolding q_def by (simp add: lower_char_def char_of_def bit_Suc_0_iff)
  have 1: "q \<noteq> []" unfolding q_def by simp
  have 2: "read_query_match q" unfolding q_def
    by (simp add: validate_eval)
  have 3: "\<not> BANNED_search q" unfolding q_def
    by (simp del: search.simps add: validate_eval)
  have 4: "single_statement q" unfolding q_def
    by (simp add: validate_eval)
  have 5: "str_in ''mart.'' (lower q)" unfolding l
    by (simp del: str_in.simps add: validate_eval)
  have 6: "limit_word_search (lower q)" unfolding l
    by (simp del: search.simps add: validate_eval)
  have 7: "limit_search None (lower q) = Some (33, 12, ''100000'')" unfolding l
    by (simp add: validate_eval)
  have 8: "int_of_digits ''100000'' = Some 100000"
    by (simp add: validate_eval)
  have 9: "re_sub_limit repl None q = ''SELECT * FROM mart.fact_listings '' @ repl" for repl
    using re_sub_first_clause [OF 7, of repl] unfolding q_def by simp
  show "validate_sql M q = Inr (''SELECT * FROM mart.fact_listings LIMIT '' @ t)"
    if "M < 100000" "py_str M = Some t"
    unfolding validate_sql_Inr_iff s using 1 2 3 4 5 6 that by (simp add: 7 8 9)
  show "validate_sql M q = Inr q" if "100000 \<le> M"
    unfolding validate_sql_Inr_iff s using 1 2 3 4 5 6 that by (simp add: 7 8)
qed

text \<open>
  Claim C1 does not hold of the code. \<open>re.sub\<close> is called without a count, so it
  replaces every clause \<open>LIMIT <integer>\<close> of the text, not the one that exceeds the cap
  alone. In \<open>SELECT * FROM (SELECT * FROM mart.t LIMIT 99999) x LIMIT 5\<close> with
  \<open>MAX_ROWS = 2000\<close> the first clause exceeds the cap and is rewritten to \<open>LIMIT 2000\<close>;
  the second clause, \<open>LIMIT 5\<close>, is within the cap and is rewritten to \<open>LIMIT 2000\<close> as
  well, so the returned query asks for 2000 rows where the given one asks for 5. The
  rewriting of the first occurrence only, \<open>re_sub_limit_first\<close>, keeps \<open>LIMIT 5\<close>.
  What the code does with the leftmost clause is \<open>validate_sql_first_clause\<close>, and the
  example of the specification is \<open>validate_sql_limit_example\<close>.
\<close>

theorem validate_sql_rewrites_clause_within_cap:
  "limit_search None (lower (strip ''SELECT * FROM (SELECT * FROM mart.t LIMIT 99999) x LIMIT 5''))
     = Some (36, 11, ''99999'')
   \<and> validate_sql 2000 ''SELECT * FROM (SELECT * FROM mart.t LIMIT 99999) x LIMIT 5''
     = Inr ''SELECT * FROM (SELECT * FROM mart.t LIMIT 2000) x LIMIT 2000''
   \<and> re_sub_limit_first (''LIMIT '' @ str_int 2000) None
        (strip ''SELECT * FROM (SELECT * FROM mart.t LIMIT 99999) x LIMIT 5'')
     = ''SELECT * FROM (SELECT * FROM mart.t LIMIT 2000) x LIMIT 5''"
proof -
  have 0: "strip ''SELECT * FROM (SELECT * FROM mart.t LIMIT 99999) x LIMIT 5''
    = ''SELECT * FROM (SELECT * FROM mart.t LIMIT 99999) x LIMIT 5''"
    by (simp add: strip_def isspace_def)
  have 1: "limit_search None (lower ''SELECT * FROM (SELECT * FROM mart.t LIMIT 99999) x LIMIT 5'')
     = Some (36, 11, ''99999'')"
    by (simp add: validate_eval)
  have 2: "validate_sql 2000 ''SELECT * FROM (SELECT * FROM mart.t LIMIT 99999) x LIMIT 5''
     = Inr ''SELECT * FROM (SELECT * FROM mart.t LIMIT 2000) x LIMIT 2000''"
    by (simp del: search.simps str_in.simps add: validate_eval)
  have 3: "re_sub_limit_first (''LIMIT '' @ str_int 2000) None
        ''SELECT * FROM (SELECT * FROM mart.t LIMIT 99999) x LIMIT 5''
     = ''SELECT * FROM (SELECT * FROM mart.t LIMIT 2000) x LIMIT 5''"
    by (simp add: validate_eval)
  show ?thesis unfolding 0 using 1 2 3 by (intro conjI)
qed

text \<open>
  Claim C2 does not hold of the code. The integer that \<open>validate_sql\<close> compares with
  \<open>MAX_ROWS\<close> is that of the leftmost clause, so a larger integer in a later clause is
  not seen. \<open>SELECT * FROM (SELECT * FROM mart.t LIMIT 5) x LIMIT 99999\<close> is returned
  unchanged with \<open>MAX_ROWS = 2000\<close>: the text after the first clause, \<open>LIMIT 5\<close> at
  position 36, holds at position 47 the clause \<open>LIMIT 99999\<close>, which limits the rows of
  the whole query and is larger than the cap. The other parts of the claim hold of every
  returned string, and the cap holds of its leftmost clause: \<open>validate_sql_result\<close>.
\<close>

theorem validate_sql_later_clause_over_cap:
  "validate_sql 2000 ''SELECT * FROM (SELECT * FROM mart.t LIMIT 5) x LIMIT 99999''
     = Inr ''SELECT * FROM (SELECT * FROM mart.t LIMIT 5) x LIMIT 99999''
   \<and> limit_search None (lower ''SELECT * FROM (SELECT * FROM mart.t LIMIT 5) x LIMIT 99999'')
     = Some (36, 7, ''5'')
   \<and> limit_search (Some CHR ''5'')
        (lower (drop (36 + 7) ''SELECT * FROM (SELECT * FROM mart.t LIMIT 5) x LIMIT 99999''))
     = Some (4, 11, ''99999'')
   \<and> int_of_digits ''99999'' = Some 99999 \<and> (2000 :: int) < 99999"
proof -
  have 1: "validate_sql 2000 ''SELECT * FROM (SELECT * FROM mart.t LIMIT 5) x LIMIT 99999''
     = Inr ''SELECT * FROM (SELECT * FROM mart.t LIMIT 5) x LIMIT 99999''"
    by (simp del: search.simps str_in.simps add: validate_eval)
  have 2: "limit_search None (lower ''SELECT * FROM (SELECT * FROM mart.t LIMIT 5) x LIMIT 99999'')
     = Some (36, 7, ''5'')"
    by (simp add: validate_eval)
  have 3: "limit_search (Some CHR ''5'')
        (lower (drop (36 + 7) ''SELECT * FROM (SELECT * FROM mart.t LIMIT 5) x LIMIT 99999''))
     = Some (4, 11, ''99999'')"
    by (simp add: validate_eval)
  have 4: "int_of_digits ''99999'' = Some 99999"
    by (simp add: validate_eval)
  from 1 2 3 4 show ?thesis by simp
qed

end
